theory Spec2Isabelle
  imports Complex_Main "HOL-Library.Multiset"
begin

section \<open>Data model\<close>

text \<open>
  JavaScript numbers are modelled as reals (the idealisation of finite doubles); an optional
  property is an \<open>option\<close>, with \<open>None\<close> for an absent property, \<open>undefined\<close> or \<open>null\<close>.
  Records are extensible, so the spread \<open>{...node, position: p}\<close> is the record update
  \<open>node\<lparr>position := p\<rparr>\<close>, which keeps every other field, also fields unknown here.
\<close>

record Point =
  px :: real
  py :: real

record Size =
  width :: real
  height :: real

datatype HandlePosition = HTop | HRight | HBottom | HLeft

datatype EdgeDirection = Directed | Undirected

text \<open>\<open>Node\<close>, \<open>Edge\<close> and \<open>Graph\<close> of \<open>core/schema.ts\<close>.\<close>

record Node =
  node_id :: string
  node_label :: string
  node_markup :: "string option"
  position :: Point
  node_size :: "Size option"

record EdgeMetadata =
  sourceHandle :: HandlePosition
  targetPosition :: Point

record Edge =
  edge_id :: string
  source :: string
  target :: string
  directed :: bool
  edge_label :: "string option"
  edge_markup :: "string option"
  edge_size :: "Size option"
  metadata :: "EdgeMetadata option"

record Graph =
  nodes :: "Node list"
  edges :: "Edge list"

definition createEdge ::
  "string \<Rightarrow> string \<Rightarrow> string \<Rightarrow> bool \<Rightarrow> string option \<Rightarrow> string option \<Rightarrow> Edge" where
  "createEdge i s t d l m =
     \<lparr>edge_id = i, source = s, target = t, directed = d, edge_label = l, edge_markup = m,
      edge_size = None, metadata = None\<rparr>"

text \<open>The operator \<open>a || b\<close> on numbers: \<open>a\<close> when it is truthy (non-zero), else \<open>b\<close>.\<close>

definition num_or :: "real \<Rightarrow> real \<Rightarrow> real" where
  "num_or a b = (if a \<noteq> 0 then a else b)"

text \<open>\<open>a || b\<close> where \<open>a\<close> may be \<open>undefined\<close>.\<close>

definition opt_or :: "real option \<Rightarrow> real \<Rightarrow> real" where
  "opt_or a b = (case a of None \<Rightarrow> b | Some v \<Rightarrow> num_or v b)"

text \<open>Truthiness of a \<open>string | null\<close>: \<open>null\<close> and the empty string are falsy.\<close>

definition truthy_str :: "string option \<Rightarrow> bool" where
  "truthy_str s = (case s of None \<Rightarrow> False | Some v \<Rightarrow> v \<noteq> [])"

section \<open>Connection geometry (ConnectionSystem.tsx)\<close>

definition getClosestPointOnNode :: "Point \<Rightarrow> Size \<Rightarrow> Point \<Rightarrow> Point" where
  "getClosestPointOnNode nodePosition nodeSize targetPoint =
     (let nodeLeft = px nodePosition;
          nodeRight = px nodePosition + width nodeSize;
          nodeTop = py nodePosition;
          nodeBottom = py nodePosition + height nodeSize;
          distanceToLeft = \<bar>px targetPoint - nodeLeft\<bar>;
          distanceToRight = \<bar>px targetPoint - nodeRight\<bar>;
          distanceToTop = \<bar>py targetPoint - nodeTop\<bar>;
          distanceToBottom = \<bar>py targetPoint - nodeBottom\<bar>;
          minDistance = min (min (min distanceToLeft distanceToRight) distanceToTop) distanceToBottom
      in if minDistance = distanceToLeft then
           \<lparr>px = nodeLeft, py = max nodeTop (min nodeBottom (py targetPoint))\<rparr>
         else if minDistance = distanceToRight then
           \<lparr>px = nodeRight, py = max nodeTop (min nodeBottom (py targetPoint))\<rparr>
         else if minDistance = distanceToTop then
           \<lparr>px = max nodeLeft (min nodeRight (px targetPoint)), py = nodeTop\<rparr>
         else
           \<lparr>px = max nodeLeft (min nodeRight (px targetPoint)), py = nodeBottom\<rparr>)"

text \<open>The boundary of the box and the squared Euclidean distance, to state what "nearest
  boundary point" means.\<close>

definition on_boundary :: "Point \<Rightarrow> Size \<Rightarrow> Point \<Rightarrow> bool" where
  "on_boundary nodePosition nodeSize q =
     (px nodePosition \<le> px q \<and> px q \<le> px nodePosition + width nodeSize \<and>
      py nodePosition \<le> py q \<and> py q \<le> py nodePosition + height nodeSize \<and>
      (px q = px nodePosition \<or> px q = px nodePosition + width nodeSize \<or>
       py q = py nodePosition \<or> py q = py nodePosition + height nodeSize))"

definition dist2 :: "Point \<Rightarrow> Point \<Rightarrow> real" where
  "dist2 a b = (px a - px b)\<^sup>2 + (py a - py b)\<^sup>2"


section \<open>Connection session (GraphCanvas.tsx, ConnectionSystem.tsx)\<close>

text \<open>The \<open>connectionMode\<close> state of the canvas.\<close>

record ConnectionMode =
  isActive :: bool
  sourceNodeId :: "string option"
  sourceHandlePosition :: "HandlePosition option"
  edgeDirection :: EdgeDirection

definition startConnectionFromHandle :: "string \<Rightarrow> HandlePosition \<Rightarrow> ConnectionMode" where
  "startConnectionFromHandle src handlePosition =
     \<lparr>isActive = True, sourceNodeId = Some src, sourceHandlePosition = Some handlePosition,
      edgeDirection = Directed\<rparr>"

definition startConnectionMode :: "string \<Rightarrow> EdgeDirection \<Rightarrow> ConnectionMode" where
  "startConnectionMode src direction =
     \<lparr>isActive = True, sourceNodeId = Some src, sourceHandlePosition = None,
      edgeDirection = direction\<rparr>"

definition cancelConnectionMode :: ConnectionMode where
  "cancelConnectionMode =
     \<lparr>isActive = False, sourceNodeId = None, sourceHandlePosition = None,
      edgeDirection = Directed\<rparr>"

text \<open>
  \<open>completeConnection\<close> reads \<open>connectionMode\<close> and \<open>graph\<close>, and \<open>Date.now()\<close> (the
  parameter \<open>now\<close>, already rendered as a decimal string). It returns the new
  \<open>connectionMode\<close> and the argument of \<open>onGraphChange\<close>, \<open>None\<close> when the callback is
  not called.
\<close>

definition completeConnection ::
  "ConnectionMode \<Rightarrow> Graph \<Rightarrow> string \<Rightarrow> string \<Rightarrow> Point option \<Rightarrow> ConnectionMode \<times> Graph option" where
  "completeConnection connectionMode graph now targetNodeId targetPos =
     (case sourceNodeId connectionMode of
        None \<Rightarrow> (connectionMode, None)
      | Some src \<Rightarrow>
          if \<not> isActive connectionMode \<or> src = [] then (connectionMode, None)
          else if src = targetNodeId then (cancelConnectionMode, None)
          else
            let newEdge = createEdge (''E'' @ now) src targetNodeId
                            (edgeDirection connectionMode = Directed) None (Some ''New connection'');
                newEdge' =
                  (case (targetPos, sourceHandlePosition connectionMode) of
                     (Some tp, Some h) \<Rightarrow>
                       newEdge\<lparr>metadata := Some \<lparr>sourceHandle = h, targetPosition = tp\<rparr>\<rparr>
                   | _ \<Rightarrow> newEdge);
                updatedGraph = graph\<lparr>edges := edges graph @ [newEdge']\<rparr>
            in (cancelConnectionMode, Some updatedGraph))"

text \<open>A ReactFlow node as \<open>ConnectionSystem\<close> reads it: \<open>id\<close>, \<open>position\<close>,
  \<open>data?.node?.size\<close>, \<open>width\<close> and \<open>height\<close>.\<close>

record RFNode =
  rf_id :: string
  rf_position :: Point
  rf_data_size :: "Size option"
  rf_width :: "real option"
  rf_height :: "real option"

definition rf_nodeSize :: "RFNode \<Rightarrow> Size" where
  "rf_nodeSize node =
     \<lparr>width = opt_or (map_option width (rf_data_size node)) (opt_or (rf_width node) 192),
      height = opt_or (map_option height (rf_data_size node)) (opt_or (rf_height node) 96)\<rparr>"

definition padding :: real where
  "padding = 20"

definition in_padded_box :: "RFNode \<Rightarrow> Point \<Rightarrow> bool" where
  "in_padded_box node flowPosition =
     (let nodeSize = rf_nodeSize node;
          nodeLeft = px (rf_position node);
          nodeRight = px (rf_position node) + width nodeSize;
          nodeTop = py (rf_position node);
          nodeBottom = py (rf_position node) + height nodeSize
      in px flowPosition \<ge> nodeLeft - padding \<and> px flowPosition \<le> nodeRight + padding \<and>
         py flowPosition \<ge> nodeTop - padding \<and> py flowPosition \<le> nodeBottom + padding)"

text \<open>The state of the \<open>ConnectionSystem\<close> component.\<close>

record ConnectionSystemState =
  cursorPosition :: "Point option"
  hoveredNodeId :: "string option"
  snapPosition :: "Point option"

definition resetSystem :: ConnectionSystemState where
  "resetSystem = \<lparr>cursorPosition = None, hoveredNodeId = None, snapPosition = None\<rparr>"

text \<open>The loop of \<open>handleMouseMove\<close> over \<open>nodes\<close>: it yields \<open>foundHoveredNode\<close> and
  \<open>foundSnapPosition\<close>.\<close>

fun findHovered :: "string option \<Rightarrow> Point \<Rightarrow> RFNode list \<Rightarrow> string option \<times> Point option" where
  "findHovered src flowPosition [] = (None, None)"
| "findHovered src flowPosition (node # rest) =
     (if Some (rf_id node) = src then findHovered src flowPosition rest
      else if in_padded_box node flowPosition then
        (Some (rf_id node),
         Some (getClosestPointOnNode (rf_position node) (rf_nodeSize node) flowPosition))
      else findHovered src flowPosition rest)"

definition handleMouseMove ::
  "string option \<Rightarrow> RFNode list \<Rightarrow> Point \<Rightarrow> ConnectionSystemState" where
  "handleMouseMove src rfnodes flowPosition =
     (let (foundHoveredNode, foundSnapPosition) = findHovered src flowPosition rfnodes
      in \<lparr>cursorPosition = Some flowPosition, hoveredNodeId = foundHoveredNode,
          snapPosition = foundSnapPosition\<rparr>)"

text \<open>\<open>handleMouseUp\<close>: the call of \<open>onCompleteConnection\<close> it makes, if any.\<close>

definition handleMouseUp :: "ConnectionSystemState \<Rightarrow> (string \<times> Point) option" where
  "handleMouseUp st =
     (case (hoveredNodeId st, snapPosition st) of
        (Some h, Some sp) \<Rightarrow> if h \<noteq> [] then Some (h, sp) else None
      | _ \<Rightarrow> None)"

text \<open>
  The session as a state machine. A step is one user event; the listeners of
  \<open>ConnectionSystem\<close> exist only while \<open>isActive\<close>, and its effect resets the component's
  state whenever \<open>isActive\<close> is false. The parent applies \<open>onGraphChange\<close> to \<open>graph\<close>. A
  step returns the new state and the connection request it emitted: the edge appended by
  \<open>completeConnection\<close>.
\<close>

record Session =
  connectionMode :: ConnectionMode
  system :: ConnectionSystemState
  graph :: Graph

datatype Event =
    StartFromHandle string HandlePosition
  | StartMode string EdgeDirection
  | MouseMove Point "RFNode list"
  | MouseUp string
  | NodeClick string string
  | PaneClick
  | Escape

definition syncSystem :: "Session \<Rightarrow> Session" where
  "syncSystem s = (if isActive (connectionMode s) then s else s\<lparr>system := resetSystem\<rparr>)"

definition commit :: "Session \<Rightarrow> string \<Rightarrow> string \<Rightarrow> Point option \<Rightarrow> Session \<times> Edge option" where
  "commit s now targetNodeId targetPos =
     (case completeConnection (connectionMode s) (graph s) now targetNodeId targetPos of
        (cm, None) \<Rightarrow> (syncSystem (s\<lparr>connectionMode := cm\<rparr>), None)
      | (cm, Some g) \<Rightarrow>
          (syncSystem (s\<lparr>connectionMode := cm, graph := g\<rparr>),
           (case rev (edges g) of [] \<Rightarrow> None | e # _ \<Rightarrow> Some e)))"

fun step :: "Session \<Rightarrow> Event \<Rightarrow> Session \<times> Edge option" where
  "step s (StartFromHandle src h) =
     (syncSystem (s\<lparr>connectionMode := startConnectionFromHandle src h\<rparr>), None)"
| "step s (StartMode src d) =
     (syncSystem (s\<lparr>connectionMode := startConnectionMode src d\<rparr>), None)"
| "step s (MouseMove p rfnodes) =
     (if isActive (connectionMode s)
      then (s\<lparr>system := handleMouseMove (sourceNodeId (connectionMode s)) rfnodes p\<rparr>, None)
      else (s, None))"
| "step s (MouseUp now) =
     (if isActive (connectionMode s)
      then (case handleMouseUp (system s) of
              None \<Rightarrow> (s, None)
            | Some (h, sp) \<Rightarrow> commit s now h (Some sp))
      else (s, None))"
| "step s (NodeClick now nodeId) =
     (if isActive (connectionMode s) then commit s now nodeId None else (s, None))"
| "step s PaneClick =
     (if isActive (connectionMode s)
      then (syncSystem (s\<lparr>connectionMode := cancelConnectionMode\<rparr>), None)
      else (s, None))"
| "step s Escape =
     (if isActive (connectionMode s)
      then (syncSystem (s\<lparr>connectionMode := cancelConnectionMode\<rparr>), None)
      else (s, None))"

text \<open>Running a sequence of events, collecting the emitted connection requests in order.\<close>

fun run :: "Session \<Rightarrow> Event list \<Rightarrow> Session \<times> Edge list" where
  "run s [] = (s, [])"
| "run s (ev # evs) =
     (case step s ev of
        (s', out) \<Rightarrow>
          (case run s' evs of
             (s'', outs) \<Rightarrow> (s'', (case out of None \<Rightarrow> outs | Some e \<Rightarrow> e # outs))))"


section \<open>Graph structure analysis (utils/graphLayout.ts)\<close>

text \<open>
  A JavaScript \<open>Map\<close> whose values are arrays, kept in insertion order: \<open>map_push k v m\<close> is
  \<open>if (!m.has(k)) m.set(k, []); m.get(k).push(v)\<close>.
\<close>

fun map_push :: "'k \<Rightarrow> 'v \<Rightarrow> ('k \<times> 'v list) list \<Rightarrow> ('k \<times> 'v list) list" where
  "map_push k v [] = [(k, [v])]"
| "map_push k v ((k', vs) # rest) =
     (if k' = k then (k', vs @ [v]) # rest else (k', vs) # map_push k v rest)"

type_synonym Adjacency = "(string \<times> string list) list"

definition buildAdjacency :: "Edge list \<Rightarrow> Adjacency" where
  "buildAdjacency es =
     fold (\<lambda>edge adjacency. map_push (source edge) (target edge) adjacency) es []"

text \<open>\<open>adjacency.get(k) || []\<close>\<close>

definition adj_get :: "Adjacency \<Rightarrow> string \<Rightarrow> string list" where
  "adj_get adjacency k = (case map_of adjacency k of None \<Rightarrow> [] | Some ts \<Rightarrow> ts)"

definition adj_targets :: "Adjacency \<Rightarrow> string set" where
  "adj_targets adjacency = set (concat (map snd adjacency))"

text \<open>The two sets that the closure \<open>hasCycle\<close> mutates.\<close>

record DfsState =
  visited :: "string set"
  recursionStack :: "string set"

text \<open>\<open>hasCycle\<close> and its loop over the neighbours, which returns at the first cycle found.\<close>

function hasCycle :: "Adjacency \<Rightarrow> string \<Rightarrow> DfsState \<Rightarrow> bool \<times> DfsState"
  and hasCycle_loop :: "Adjacency \<Rightarrow> string list \<Rightarrow> DfsState \<Rightarrow> bool \<times> DfsState" where
  "hasCycle adjacency nodeId st =
     (if nodeId \<in> recursionStack st then (True, st)
      else if nodeId \<in> visited st then (False, st)
      else
        (case hasCycle_loop adjacency (adj_get adjacency nodeId)
                (st\<lparr>visited := insert nodeId (visited st),
                    recursionStack := insert nodeId (recursionStack st)\<rparr>) of
           (True, st') \<Rightarrow> (True, st')
         | (False, st') \<Rightarrow> (False, st'\<lparr>recursionStack := recursionStack st' - {nodeId}\<rparr>)))"
| "hasCycle_loop adjacency [] st = (False, st)"
| "hasCycle_loop adjacency (neighbor # rest) st =
     (case hasCycle adjacency neighbor st of
        (True, st') \<Rightarrow> (True, st')
      | (False, st') \<Rightarrow> hasCycle_loop adjacency rest st')"
  by pat_completeness auto

text \<open>Termination: every call that does not return at once marks a node that was not yet
  visited, and the nodes that can be marked are the start node and the targets of the edges.\<close>

lemma visited_mono_dom:
  "hasCycle_hasCycle_loop_dom (Inl (adjacency, nodeId, st)) \<Longrightarrow>
     visited st \<subseteq> visited (snd (hasCycle adjacency nodeId st))"
  "hasCycle_hasCycle_loop_dom (Inr (adjacency, ns, st)) \<Longrightarrow>
     visited st \<subseteq> visited (snd (hasCycle_loop adjacency ns st))"
proof (induction adjacency nodeId st and adjacency ns st rule: hasCycle_hasCycle_loop.pinduct)
  case (1 adjacency nodeId st)
  then show ?case
    by (auto simp: hasCycle.psimps split: prod.splits bool.splits if_splits)
next
  case (2 adjacency st)
  then show ?case by (simp add: hasCycle_loop.psimps)
next
  case (3 adjacency neighbor rest st)
  obtain b st' where h: "hasCycle adjacency neighbor st = (b, st')"
    by (cases "hasCycle adjacency neighbor st")
  with 3(2) have m: "visited st \<subseteq> visited st'" by simp
  show ?case
  proof (cases b)
    case True
    with h m 3(1) show ?thesis by (simp add: hasCycle_loop.psimps)
  next
    case False
    with 3(3)[of b st'] h
    have "visited st' \<subseteq> visited (snd (hasCycle_loop adjacency rest st'))"
      by simp
    with False h m 3(1) show ?thesis by (auto simp add: hasCycle_loop.psimps)
  qed
qed

definition dfs_measure :: "Adjacency \<Rightarrow> string set \<Rightarrow> DfsState \<Rightarrow> nat" where
  "dfs_measure adjacency extra st = card ((adj_targets adjacency \<union> extra) - visited st)"

lemma adj_get_targets: "set (adj_get adjacency k) \<subseteq> adj_targets adjacency"
proof (cases "map_of adjacency k")
  case None
  then show ?thesis by (simp add: adj_get_def)
next
  case (Some ts)
  then have "(k, ts) \<in> set adjacency" by (rule map_of_SomeD)
  then have "set ts \<subseteq> adj_targets adjacency" by (force simp: adj_targets_def)
  with Some show ?thesis by (simp add: adj_get_def)
qed

termination hasCycle
proof (relation "inv_image (measure id <*lex*> measure id)
    (\<lambda>a. case a of
       Inl (adjacency, nodeId, st) \<Rightarrow> (dfs_measure adjacency {nodeId} st, 0)
     | Inr (adjacency, ns, st) \<Rightarrow> (dfs_measure adjacency (set ns) st, Suc (length ns)))",
    goal_cases)
  case 1
  show ?case by (intro wf_inv_image wf_lex_prod wf_measure)
next
  case (2 adjacency nodeId st)
  have fin: "finite (adj_targets adjacency \<union> {nodeId})" by (simp add: adj_targets_def)
  have "(adj_targets adjacency \<union> set (adj_get adjacency nodeId)) - insert nodeId (visited st)
        \<subset> (adj_targets adjacency \<union> {nodeId}) - visited st"
    using 2 adj_get_targets[of adjacency nodeId] by auto
  then show ?case using fin
    by (simp add: dfs_measure_def psubset_card_mono)
next
  case (3 adjacency neighbor rest st)
  have "card ((adj_targets adjacency \<union> {neighbor}) - visited st)
        \<le> card ((adj_targets adjacency \<union> set (neighbor # rest)) - visited st)"
    by (rule card_mono) (auto simp: adj_targets_def)
  then show ?case by (auto simp: dfs_measure_def)
next
  case (4 adjacency neighbor rest st x y)
  from visited_mono_dom(1)[OF 4(3)] 4(1)[symmetric]
  have m: "visited st \<subseteq> visited y" by simp
  have "card ((adj_targets adjacency \<union> set rest) - visited y)
        \<le> card ((adj_targets adjacency \<union> set (neighbor # rest)) - visited st)"
    using m by (intro card_mono) (auto simp: adj_targets_def)
  then show ?case by (auto simp: dfs_measure_def)
qed

declare hasCycle.simps [simp del]

text \<open>The loop over \<open>nodes\<close> at the end of \<open>isHierarchicalGraph\<close>: \<open>False\<close> as soon as a
  cycle is found, \<open>True\<close> after the last node.\<close>

fun checkNodes :: "Adjacency \<Rightarrow> Node list \<Rightarrow> DfsState \<Rightarrow> bool" where
  "checkNodes adjacency [] st = True"
| "checkNodes adjacency (node # rest) st =
     (if node_id node \<notin> visited st then
        (case hasCycle adjacency (node_id node) st of
           (True, st') \<Rightarrow> False
         | (False, st') \<Rightarrow> checkNodes adjacency rest st')
      else checkNodes adjacency rest st)"

definition isHierarchicalGraph :: "Node list \<Rightarrow> Edge list \<Rightarrow> bool" where
  "isHierarchicalGraph ns es =
     (if length es = 0 then False
      else checkNodes (buildAdjacency es) ns \<lparr>visited = {}, recursionStack = {}\<rparr>)"

section \<open>Layout engine (utils/graphLayout.ts)\<close>

record LayoutOptions =
  opt_width :: "real option"
  opt_height :: "real option"
  opt_iterations :: "real option"
  opt_nodeSpacing :: "real option"
  opt_linkDistance :: "real option"
  opt_linkStrength :: "real option"
  opt_repulsionStrength :: "real option"
  opt_centerStrength :: "real option"

text \<open>\<open>Required<LayoutOptions>\<close>\<close>

record Opts =
  r_width :: real
  r_height :: real
  r_iterations :: real
  r_nodeSpacing :: real
  r_linkDistance :: real
  r_linkStrength :: real
  r_repulsionStrength :: real
  r_centerStrength :: real

definition DEFAULT_OPTIONS :: Opts where
  "DEFAULT_OPTIONS =
     \<lparr>r_width = 1200, r_height = 800, r_iterations = 300, r_nodeSpacing = 100,
      r_linkDistance = 200, r_linkStrength = 1 / 10, r_repulsionStrength = - 1000,
      r_centerStrength = 1 / 10\<rparr>"

text \<open>\<open>{ ...DEFAULT_OPTIONS, ...options }\<close>: a property present in \<open>options\<close> wins.\<close>

definition override :: "real \<Rightarrow> real option \<Rightarrow> real" where
  "override d v = (case v of None \<Rightarrow> d | Some w \<Rightarrow> w)"

definition resolveOptions :: "LayoutOptions \<Rightarrow> Opts" where
  "resolveOptions options =
     \<lparr>r_width = override (r_width DEFAULT_OPTIONS) (opt_width options),
      r_height = override (r_height DEFAULT_OPTIONS) (opt_height options),
      r_iterations = override (r_iterations DEFAULT_OPTIONS) (opt_iterations options),
      r_nodeSpacing = override (r_nodeSpacing DEFAULT_OPTIONS) (opt_nodeSpacing options),
      r_linkDistance = override (r_linkDistance DEFAULT_OPTIONS) (opt_linkDistance options),
      r_linkStrength = override (r_linkStrength DEFAULT_OPTIONS) (opt_linkStrength options),
      r_repulsionStrength =
        override (r_repulsionStrength DEFAULT_OPTIONS) (opt_repulsionStrength options),
      r_centerStrength =
        override (r_centerStrength DEFAULT_OPTIONS) (opt_centerStrength options)\<rparr>"

subsection \<open>Hierarchical layout\<close>

definition rootNodes :: "Node list \<Rightarrow> Edge list \<Rightarrow> Node list" where
  "rootNodes ns es =
     (let incomingEdges = set (map target es);
          roots = filter (\<lambda>node. node_id node \<notin> incomingEdges) ns
      in case (roots, ns) of ([], first # _) \<Rightarrow> [first] | _ \<Rightarrow> roots)"

type_synonym Levels = "string \<rightharpoonup> nat"
type_synonym Queue = "(string \<times> nat) list"

text \<open>The loop that seeds the queue with the roots.\<close>

fun seedRoots :: "Node list \<Rightarrow> Levels \<Rightarrow> Queue \<Rightarrow> Levels \<times> Queue" where
  "seedRoots [] levels queue = (levels, queue)"
| "seedRoots (rootNode # rest) levels queue =
     seedRoots rest (levels(node_id rootNode \<mapsto> 0)) (queue @ [(node_id rootNode, 0)])"

text \<open>The inner loop over the children of the dequeued node.\<close>

fun visitChildren :: "string list \<Rightarrow> nat \<Rightarrow> Levels \<Rightarrow> Queue \<Rightarrow> Levels \<times> Queue" where
  "visitChildren [] level levels queue = (levels, queue)"
| "visitChildren (childId # rest) level levels queue =
     (if levels childId = None
      then visitChildren rest level (levels(childId \<mapsto> level + 1))
             (queue @ [(childId, level + 1)])
      else visitChildren rest level levels queue)"

lemma visitChildren_measure:
  assumes "finite T" "set cs \<subseteq> T" "visitChildren cs l lv q = (lv', q')"
  shows "card (T - dom lv') + length q' = card (T - dom lv) + length q"
  using assms(2,3)
proof (induction cs arbitrary: lv q)
  case Nil
  then show ?case by simp
next
  case (Cons c cs)
  show ?case
  proof (cases "lv c = None")
    case True
    with Cons.prems
    have r: "visitChildren cs l (lv(c \<mapsto> l + 1)) (q @ [(c, l + 1)]) = (lv', q')"
      by simp
    from Cons.prems True have "c \<in> T - dom lv" by auto
    then have "card (T - dom lv) = Suc (card ((T - dom lv) - {c}))"
      using assms(1) by (intro card.remove) auto
    moreover have "T - dom (lv(c \<mapsto> l + 1)) = (T - dom lv) - {c}" by auto
    ultimately have a: "card (T - dom (lv(c \<mapsto> l + 1))) + 1 = card (T - dom lv)"
      by simp
    from Cons.prems(1) have "set cs \<subseteq> T" by simp
    from Cons.IH[OF this r]
    have "card (T - dom lv') + length q' =
          card (T - dom (lv(c \<mapsto> l + 1))) + length (q @ [(c, l + 1)])" .
    with a show ?thesis by simp
  next
    case False
    with Cons.prems have r: "visitChildren cs l lv q = (lv', q')" by simp
    from Cons.prems(1) have "set cs \<subseteq> T" by simp
    from Cons.IH[OF this r] show ?thesis .
  qed
qed

function bfs :: "Adjacency \<Rightarrow> Levels \<Rightarrow> Queue \<Rightarrow> Levels" where
  "bfs adjacency levels [] = levels"
| "bfs adjacency levels ((nodeId, level) # queue) =
     (case visitChildren (adj_get adjacency nodeId) level levels queue of
        (levels', queue') \<Rightarrow> bfs adjacency levels' queue')"
  by pat_completeness auto
termination
proof (relation "measure (\<lambda>(adjacency, levels, queue).
          card (adj_targets adjacency - dom levels) + length queue)", goal_cases)
  case 1
  show ?case by simp
next
  case (2 adjacency levels nodeId level queue x xa)
  have "finite (adj_targets adjacency)" by (simp add: adj_targets_def)
  from visitChildren_measure[OF this adj_get_targets 2[symmetric]]
  show ?case by simp
qed


declare bfs.simps [simp del]

text \<open>\<open>levels.get(node.id) || 0\<close>\<close>

definition levelOf :: "Levels \<Rightarrow> Node \<Rightarrow> nat" where
  "levelOf levels node = (case levels (node_id node) of None \<Rightarrow> 0 | Some l \<Rightarrow> l)"

definition assignLevels :: "Node list \<Rightarrow> Edge list \<Rightarrow> Levels" where
  "assignLevels ns es =
     (case seedRoots (rootNodes ns es) Map.empty [] of
        (levels, queue) \<Rightarrow> bfs (buildAdjacency es) levels queue)"

text \<open>\<open>nodesByLevel\<close>, a \<open>Map\<close> from level to the nodes of that level, in insertion order.\<close>

definition groupByLevel :: "Levels \<Rightarrow> Node list \<Rightarrow> (nat \<times> Node list) list" where
  "groupByLevel levels ns = fold (\<lambda>node m. map_push (levelOf levels node) node m) ns []"

definition levelHeight :: real where
  "levelHeight = 250"

definition nodeWidth :: real where
  "nodeWidth = 300"

text \<open>The body of the positioning loop for one entry of \<open>nodesByLevel\<close>.\<close>

definition placeLevel :: "Opts \<Rightarrow> nat \<times> Node list \<Rightarrow> Node list" where
  "placeLevel opts entry =
     (case entry of
        (level, levelNodes) \<Rightarrow>
          let y = real level * levelHeight;
              totalWidth = (real (length levelNodes) - 1) * nodeWidth;
              startX = (r_width opts - totalWidth) / 2
          in map (\<lambda>(index, node).
                    node\<lparr>position := \<lparr>px = startX + real index * nodeWidth, py = y\<rparr>\<rparr>)
               (enumerate 0 levelNodes))"

definition applyHierarchicalLayout :: "Node list \<Rightarrow> Edge list \<Rightarrow> LayoutOptions \<Rightarrow> Graph" where
  "applyHierarchicalLayout ns es options =
     (let opts = resolveOptions options;
          levels = assignLevels ns es;
          nodesByLevel = groupByLevel levels ns;
          updatedNodes = concat (map (placeLevel opts) nodesByLevel)
      in \<lparr>nodes = updatedNodes, edges = es\<rparr>)"

subsection \<open>Force-directed layout\<close>

record LayoutNode =
  ln_id :: string
  ln_x :: real
  ln_y :: real
  originalNode :: Node

record LayoutEdge =
  le_source :: string
  le_target :: string
  originalEdge :: Edge

text \<open>
  The d3-force library is not part of this repository; the layout takes it as a parameter.
  \<open>forceSimulation\<close> builds the simulation from the resolved options (link distance and
  strength, charge strength, centre and its strength, collision radius), the node data and
  the link data; \<open>tick\<close> advances it one step; \<open>datum_x\<close> and \<open>datum_y\<close> read the
  coordinates that the simulation has written into the \<open>i\<close>-th node datum. d3 writes only
  \<open>index\<close>, \<open>x\<close>, \<open>y\<close>, \<open>vx\<close> and \<open>vy\<close> of a datum, so \<open>originalNode\<close> is read from the
  datum as the layout built it.
\<close>

record 's D3 =
  forceSimulation :: "Opts \<Rightarrow> LayoutNode list \<Rightarrow> LayoutEdge list \<Rightarrow> 's"
  tick :: "'s \<Rightarrow> 's"
  datum_x :: "'s \<Rightarrow> nat \<Rightarrow> real"
  datum_y :: "'s \<Rightarrow> nat \<Rightarrow> real"

text \<open>How often the body of \<open>for (let i = 0; i < iterations; i++)\<close> runs.\<close>

definition tickCount :: "real \<Rightarrow> nat" where
  "tickCount iterations = nat \<lceil>iterations\<rceil>"

definition applyForceDirectedLayout ::
  "'s D3 \<Rightarrow> Node list \<Rightarrow> Edge list \<Rightarrow> LayoutOptions \<Rightarrow> Graph" where
  "applyForceDirectedLayout d3 ns es options =
     (let opts = resolveOptions options;
          layoutNodes = map (\<lambda>node. \<lparr>ln_id = node_id node, ln_x = px (position node),
                                     ln_y = py (position node), originalNode = node\<rparr>) ns;
          layoutEdges = map (\<lambda>edge. \<lparr>le_source = source edge, le_target = target edge,
                                     originalEdge = edge\<rparr>) es;
          simulation = forceSimulation d3 opts layoutNodes layoutEdges;
          simulation' = (tick d3 ^^ tickCount (r_iterations opts)) simulation;
          updatedNodes =
            map (\<lambda>(i, layoutNode).
                   (originalNode layoutNode)
                     \<lparr>position := \<lparr>px = num_or (datum_x d3 simulation' i) 0,
                                   py = num_or (datum_y d3 simulation' i) 0\<rparr>\<rparr>)
              (enumerate 0 layoutNodes)
      in \<lparr>nodes = updatedNodes, edges = es\<rparr>)"

subsection \<open>Automatic choice of the layout\<close>

definition applyAutoLayout ::
  "'s D3 \<Rightarrow> Node list \<Rightarrow> Edge list \<Rightarrow> LayoutOptions \<Rightarrow> Graph" where
  "applyAutoLayout d3 ns es options =
     (case ns of
        [] \<Rightarrow> \<lparr>nodes = ns, edges = es\<rparr>
      | [node] \<Rightarrow>
          (let opts = resolveOptions options
           in \<lparr>nodes = [node\<lparr>position := \<lparr>px = r_width opts / 2, py = r_height opts / 2\<rparr>\<rparr>],
               edges = es\<rparr>)
      | _ \<Rightarrow>
          if isHierarchicalGraph ns es then applyHierarchicalLayout ns es options
          else applyForceDirectedLayout d3 ns es options)"

section \<open>Vocabulary of the properties\<close>

text \<open>The edge relation of an edge list, and of an adjacency map.\<close>

definition edge_rel :: "Edge list \<Rightarrow> (string \<times> string) set" where
  "edge_rel es = {(source e, target e) | e. e \<in> set es}"

definition adj_rel :: "Adjacency \<Rightarrow> (string \<times> string) set" where
  "adj_rel adjacency = {(u, v). v \<in> set (adj_get adjacency u)}"

text \<open>A cycle is reachable from \<open>v\<close>: some \<open>c\<close> reachable from \<open>v\<close> lies on a cycle.\<close>

definition reaches_cycle :: "(string \<times> string) set \<Rightarrow> string \<Rightarrow> bool" where
  "reaches_cycle E v = (\<exists>c. (v, c) \<in> E\<^sup>* \<and> (c, c) \<in> E\<^sup>+)"

text \<open>A node with its position blanked: two nodes agree on every field but \<open>position\<close>
  exactly when their images are equal.\<close>

definition sans_position :: "Node \<Rightarrow> Node" where
  "sans_position node = node\<lparr>position := \<lparr>px = 0, py = 0\<rparr>\<rparr>"

text \<open>The invariant of the depth-first search: the stack is part of the visited set, and
  the finished nodes (visited, not on the stack) are closed under the edges and lie on no
  cycle.\<close>

definition closed_under :: "(string \<times> string) set \<Rightarrow> string set \<Rightarrow> bool" where
  "closed_under E B = (\<forall>u w. u \<in> B \<and> (u, w) \<in> E \<longrightarrow> w \<in> B)"

definition acyclic_on :: "(string \<times> string) set \<Rightarrow> string set \<Rightarrow> bool" where
  "acyclic_on E B = (\<forall>u. u \<in> B \<longrightarrow> (u, u) \<notin> E\<^sup>+)"

definition dfs_inv :: "(string \<times> string) set \<Rightarrow> DfsState \<Rightarrow> bool" where
  "dfs_inv E st =
     (recursionStack st \<subseteq> visited st \<and>
      closed_under E (visited st - recursionStack st) \<and>
      acyclic_on E (visited st - recursionStack st))"

text \<open>What a call of \<open>hasCycle\<close> on one of the nodes \<open>vs\<close> establishes.\<close>

definition dfs_post ::
  "(string \<times> string) set \<Rightarrow> DfsState \<Rightarrow> string set \<Rightarrow> bool \<times> DfsState \<Rightarrow> bool" where
  "dfs_post E st vs res =
     (case res of
        (True, st') \<Rightarrow> (\<exists>v \<in> vs. reaches_cycle E v)
      | (False, st') \<Rightarrow>
          dfs_inv E st' \<and> recursionStack st' = recursionStack st \<and>
          visited st \<subseteq> visited st' \<and> vs \<subseteq> visited st' - recursionStack st)"

text \<open>Breadth-first levels. \<open>is_dist E R v l\<close>: \<open>l\<close> is the length of a shortest path from
  a node of \<open>R\<close> to \<open>v\<close>. \<open>bfs_level E R v\<close> is that length when \<open>v\<close> is reachable from \<open>R\<close>.\<close>

definition is_dist :: "(string \<times> string) set \<Rightarrow> string set \<Rightarrow> string \<Rightarrow> nat \<Rightarrow> bool" where
  "is_dist E R v l = ((\<exists>r \<in> R. (r, v) \<in> E ^^ l) \<and> (\<forall>k r. r \<in> R \<and> (r, v) \<in> E ^^ k \<longrightarrow> l \<le> k))"

definition bfs_level :: "(string \<times> string) set \<Rightarrow> string set \<Rightarrow> string \<Rightarrow> nat option" where
  "bfs_level E R v =
     (if \<exists>r \<in> R. (r, v) \<in> E\<^sup>* then Some (LEAST k. \<exists>r \<in> R. (r, v) \<in> E ^^ k) else None)"

text \<open>The invariant of the breadth-first loop: queue entries carry the level recorded for
  their node; the queue is sorted by level and spans at most two levels; every recorded
  level is a shortest distance; the children of a recorded node that is no longer queued
  are recorded; the roots are recorded.\<close>

definition bfs_inv :: "(string \<times> string) set \<Rightarrow> string set \<Rightarrow> Levels \<Rightarrow> Queue \<Rightarrow> bool" where
  "bfs_inv E R lv q =
     ((\<forall>e \<in> set q. lv (fst e) = Some (snd e)) \<and>
      sorted (map snd q) \<and>
      (\<forall>e \<in> set q. snd e \<le> Suc (snd (hd q))) \<and>
      (\<forall>v l. lv v = Some l \<longrightarrow> is_dist E R v l) \<and>
      (\<forall>v w. lv v \<noteq> None \<and> v \<notin> fst ` set q \<and> (v, w) \<in> E \<longrightarrow> lv w \<noteq> None) \<and>
      (\<forall>r \<in> R. lv r \<noteq> None))"

text \<open>The elements of a list in the order of their first occurrence.\<close>

definition first_occurrences :: "'a list \<Rightarrow> 'a list" where
  "first_occurrences xs = rev (remdups (rev xs))"

section \<open>Example inputs\<close>

definition mkNode :: "string \<Rightarrow> real \<Rightarrow> real \<Rightarrow> Node" where
  "mkNode i a b =
     \<lparr>node_id = i, node_label = i, node_markup = None, position = \<lparr>px = a, py = b\<rparr>,
      node_size = None\<rparr>"

definition mkEdge :: "string \<Rightarrow> string \<Rightarrow> Edge" where
  "mkEdge s t = createEdge (s @ t) s t True None None"

definition noOptions :: LayoutOptions where
  "noOptions =
     \<lparr>opt_width = None, opt_height = None, opt_iterations = None, opt_nodeSpacing = None,
      opt_linkDistance = None, opt_linkStrength = None, opt_repulsionStrength = None,
      opt_centerStrength = None\<rparr>"


definition exNodeA :: RFNode where
  "exNodeA = \<lparr>rf_id = ''A'', rf_position = \<lparr>px = 0, py = 0\<rparr>, rf_data_size = None,
              rf_width = None, rf_height = None\<rparr>"

definition exNodeB :: RFNode where
  "exNodeB = \<lparr>rf_id = ''B'', rf_position = \<lparr>px = 400, py = 0\<rparr>,
              rf_data_size = Some \<lparr>width = 100, height = 50\<rparr>,
              rf_width = None, rf_height = None\<rparr>"

definition exIdle :: Session where
  "exIdle = \<lparr>connectionMode = cancelConnectionMode, system = resetSystem,
             graph = \<lparr>nodes = [], edges = []\<rparr>\<rparr>"

definition exActive :: Session where
  "exActive = \<lparr>connectionMode = startConnectionFromHandle ''A'' HRight,
               system = \<lparr>cursorPosition = Some \<lparr>px = 10, py = 25\<rparr>, hoveredNodeId = None,
                         snapPosition = None\<rparr>,
               graph = \<lparr>nodes = [], edges = []\<rparr>\<rparr>"

definition exChainNodes :: "Node list" where
  "exChainNodes = [mkNode ''A'' 1 2, mkNode ''B'' 3 4, mkNode ''C'' 5 6]"

definition exChainEdges :: "Edge list" where
  "exChainEdges = [mkEdge ''A'' ''B'', mkEdge ''B'' ''C'']"

definition exCycleEdges :: "Edge list" where
  "exCycleEdges = [mkEdge ''A'' ''B'', mkEdge ''B'' ''C'', mkEdge ''C'' ''A'']"

definition exTreeNodes :: "Node list" where
  "exTreeNodes = [mkNode ''B'' 1 2, mkNode ''A'' 3 4, mkNode ''C'' 5 6, mkNode ''D'' 0 0]"

definition exTreeEdges :: "Edge list" where
  "exTreeEdges = [mkEdge ''A'' ''B'', mkEdge ''A'' ''C'', mkEdge ''B'' ''D'']"

text \<open>A stand-in for d3-force to run the force-directed layout on: every tick moves each
  node halfway towards the centre of the canvas.\<close>

definition exD3 :: "(Opts \<times> (real \<times> real) list) D3" where
  "exD3 =
     \<lparr>forceSimulation = (\<lambda>opts layoutNodes layoutEdges.
                            (opts, map (\<lambda>n. (ln_x n, ln_y n)) layoutNodes)),
      tick = (\<lambda>(opts, ps).
                (opts, map (\<lambda>(a, b). ((a + r_width opts / 2) / 2, (b + r_height opts / 2) / 2)) ps)),
      datum_x = (\<lambda>(opts, ps) i. fst (ps ! i)),
      datum_y = (\<lambda>(opts, ps) i. snd (ps ! i))\<rparr>"

definition twoTicks :: LayoutOptions where
  "twoTicks = noOptions\<lparr>opt_iterations := Some 2\<rparr>"

lemmas graph_defs =
  exChainNodes_def exChainEdges_def exCycleEdges_def exTreeNodes_def exTreeEdges_def
  mkNode_def mkEdge_def createEdge_def

lemmas layout_eval = applyHierarchicalLayout_def assignLevels_def rootNodes_def groupByLevel_def levelOf_def placeLevel_def
      buildAdjacency_def adj_get_def bfs.simps noOptions_def resolveOptions_def override_def DEFAULT_OPTIONS_def
      levelHeight_def nodeWidth_def Let_def

lemmas session_defs =
  exNodeA_def exNodeB_def exIdle_def exActive_def syncSystem_def startConnectionFromHandle_def
  startConnectionMode_def handleMouseMove_def in_padded_box_def rf_nodeSize_def opt_or_def
  num_or_def padding_def handleMouseUp_def commit_def completeConnection_def
  cancelConnectionMode_def createEdge_def getClosestPointOnNode_def resetSystem_def
  truthy_str_def

section \<open>Boundary projection\<close>

text \<open>What the function does achieve: its result is always on the boundary of a box of
  non-negative size, and for a point inside the box no boundary point is nearer.\<close>

lemma min4_cases:
  "min (min (min a b) c) d = a \<or> min (min (min a b) c) d = b \<or>
   min (min (min a b) c) d = c \<or> min (min (min a b) c) d = (d::real)"
  by (simp add: min_def)

lemma getClosestPointOnNode_cases:
  obtains
    (left) "getClosestPointOnNode pos sz p =
              \<lparr>px = px pos, py = max (py pos) (min (py pos + height sz) (py p))\<rparr>"
           "min (min (min \<bar>px p - px pos\<bar> \<bar>px p - (px pos + width sz)\<bar>) \<bar>py p - py pos\<bar>)
              \<bar>py p - (py pos + height sz)\<bar> = \<bar>px p - px pos\<bar>"
  | (right) "getClosestPointOnNode pos sz p =
              \<lparr>px = px pos + width sz, py = max (py pos) (min (py pos + height sz) (py p))\<rparr>"
           "min (min (min \<bar>px p - px pos\<bar> \<bar>px p - (px pos + width sz)\<bar>) \<bar>py p - py pos\<bar>)
              \<bar>py p - (py pos + height sz)\<bar> = \<bar>px p - (px pos + width sz)\<bar>"
  | (top) "getClosestPointOnNode pos sz p =
              \<lparr>px = max (px pos) (min (px pos + width sz) (px p)), py = py pos\<rparr>"
           "min (min (min \<bar>px p - px pos\<bar> \<bar>px p - (px pos + width sz)\<bar>) \<bar>py p - py pos\<bar>)
              \<bar>py p - (py pos + height sz)\<bar> = \<bar>py p - py pos\<bar>"
  | (bottom) "getClosestPointOnNode pos sz p =
              \<lparr>px = max (px pos) (min (px pos + width sz) (px p)), py = py pos + height sz\<rparr>"
           "min (min (min \<bar>px p - px pos\<bar> \<bar>px p - (px pos + width sz)\<bar>) \<bar>py p - py pos\<bar>)
              \<bar>py p - (py pos + height sz)\<bar> = \<bar>py p - (py pos + height sz)\<bar>"
proof -
  let ?m = "min (min (min \<bar>px p - px pos\<bar> \<bar>px p - (px pos + width sz)\<bar>) \<bar>py p - py pos\<bar>)
              \<bar>py p - (py pos + height sz)\<bar>"
  consider (a) "?m = \<bar>px p - px pos\<bar>"
    | (b) "?m \<noteq> \<bar>px p - px pos\<bar>" "?m = \<bar>px p - (px pos + width sz)\<bar>"
    | (c) "?m \<noteq> \<bar>px p - px pos\<bar>" "?m \<noteq> \<bar>px p - (px pos + width sz)\<bar>" "?m = \<bar>py p - py pos\<bar>"
    | (d) "?m \<noteq> \<bar>px p - px pos\<bar>" "?m \<noteq> \<bar>px p - (px pos + width sz)\<bar>" "?m \<noteq> \<bar>py p - py pos\<bar>"
    by blast
  then show thesis
  proof cases
    case a
    have "getClosestPointOnNode pos sz p =
            \<lparr>px = px pos, py = max (py pos) (min (py pos + height sz) (py p))\<rparr>"
      unfolding getClosestPointOnNode_def Let_def by (simp only: a if_True simp_thms)
    then show ?thesis using a by (rule left)
  next
    case b
    have "getClosestPointOnNode pos sz p =
            \<lparr>px = px pos + width sz, py = max (py pos) (min (py pos + height sz) (py p))\<rparr>"
      unfolding getClosestPointOnNode_def Let_def by (simp only: b(1) if_False) (simp only: b(2) if_True simp_thms)
    then show ?thesis using b(2) by (rule right)
  next
    case c
    have "getClosestPointOnNode pos sz p =
            \<lparr>px = max (px pos) (min (px pos + width sz) (px p)), py = py pos\<rparr>"
      unfolding getClosestPointOnNode_def Let_def by (simp only: c(1,2) if_False) (simp only: c(3) if_True simp_thms)
    then show ?thesis using c(3) by (rule top)
  next
    case d
    have "getClosestPointOnNode pos sz p =
            \<lparr>px = max (px pos) (min (px pos + width sz) (px p)), py = py pos + height sz\<rparr>"
      unfolding getClosestPointOnNode_def Let_def by (simp only: d if_False simp_thms)
    moreover from d min4_cases[of "\<bar>px p - px pos\<bar>" "\<bar>px p - (px pos + width sz)\<bar>"
                                  "\<bar>py p - py pos\<bar>" "\<bar>py p - (py pos + height sz)\<bar>"]
    have "?m = \<bar>py p - (py pos + height sz)\<bar>" by blast
    ultimately show ?thesis by (rule bottom)
  qed
qed

lemma getClosestPointOnNode_on_boundary:
  assumes "0 \<le> width sz" "0 \<le> height sz"
  shows "on_boundary pos sz (getClosestPointOnNode pos sz p)"
proof (rule getClosestPointOnNode_cases[of pos sz p], goal_cases)
  case 1
  from assms show ?case by (simp add: 1(1) on_boundary_def)
next
  case 2
  from assms show ?case by (simp add: 2(1) on_boundary_def)
next
  case 3
  from assms show ?case by (simp add: 3(1) on_boundary_def)
next
  case 4
  from assms show ?case by (simp add: 4(1) on_boundary_def)
qed

lemma getClosestPointOnNode_inside:
  assumes inside: "px pos \<le> px p" "px p \<le> px pos + width sz"
                  "py pos \<le> py p" "py p \<le> py pos + height sz"
      and q: "on_boundary pos sz q"
  shows "dist2 p (getClosestPointOnNode pos sz p) \<le> dist2 p q"
proof -
  define dl where "dl = \<bar>px p - px pos\<bar>"
  define dr where "dr = \<bar>px p - (px pos + width sz)\<bar>"
  define dt where "dt = \<bar>py p - py pos\<bar>"
  define db where "db = \<bar>py p - (py pos + height sz)\<bar>"
  define m where "m = min (min (min dl dr) dt) db"
  have m0: "0 \<le> m" by (simp add: m_def dl_def dr_def dt_def db_def)
  have mle: "m \<le> dl" "m \<le> dr" "m \<le> dt" "m \<le> db" by (simp_all add: m_def)
  have cy: "max (py pos) (min (py pos + height sz) (py p)) = py p" using inside by simp
  have cx: "max (px pos) (min (px pos + width sz) (px p)) = px p" using inside by simp
  have res: "dist2 p (getClosestPointOnNode pos sz p) = m\<^sup>2"
  proof (rule getClosestPointOnNode_cases[of pos sz p], goal_cases)
    case 1
    have "m = dl" unfolding m_def dl_def dr_def dt_def db_def by (rule 1(2))
    then show ?case by (simp add: 1(1) dist2_def cy dl_def)
  next
    case 2
    have "m = dr" unfolding m_def dl_def dr_def dt_def db_def by (rule 2(2))
    then show ?case by (simp add: 2(1) dist2_def cy dr_def)
  next
    case 3
    have "m = dt" unfolding m_def dl_def dr_def dt_def db_def by (rule 3(2))
    then show ?case by (simp add: 3(1) dist2_def cx dt_def)
  next
    case 4
    have "m = db" unfolding m_def dl_def dr_def dt_def db_def by (rule 4(2))
    then show ?case by (simp add: 4(1) dist2_def cx db_def)
  qed
  have sq: "m\<^sup>2 \<le> d\<^sup>2" if "m \<le> d" for d
    using that m0 by (simp add: power_mono)
  from q consider "px q = px pos" | "px q = px pos + width sz" | "py q = py pos"
    | "py q = py pos + height sz"
    unfolding on_boundary_def by blast
  then have "m\<^sup>2 \<le> dist2 p q"
  proof cases
    case 1
    have "dl\<^sup>2 \<le> dist2 p q" by (simp add: dist2_def dl_def 1)
    with sq[OF mle(1)] show ?thesis by simp
  next
    case 2
    have "dr\<^sup>2 \<le> dist2 p q" by (simp add: dist2_def dr_def 2)
    with sq[OF mle(2)] show ?thesis by simp
  next
    case 3
    have "dt\<^sup>2 \<le> dist2 p q" by (simp add: dist2_def dt_def 3)
    with sq[OF mle(3)] show ?thesis by simp
  next
    case 4
    have "db\<^sup>2 \<le> dist2 p q" by (simp add: dist2_def db_def 4)
    with sq[OF mle(4)] show ?thesis by simp
  qed
  with res show ?thesis by simp
qed

text \<open>
  C1. \<open>getClosestPointOnNode\<close> is documented as returning the closest edge point of the
  rectangle. For the box at (0,0) of size (100,50) and the point (500,25) it returns the
  corner (100,0): the distance to the line of the top edge (25) is smaller than the distance
  to the line of the right edge (400), so the top edge is chosen and x is clamped. The
  point (100,25) is on the boundary and strictly nearer, so the result is not the nearest
  boundary point.
\<close>

theorem getClosestPointOnNode_right_of_box:
  "getClosestPointOnNode \<lparr>px = 0, py = 0\<rparr> \<lparr>width = 100, height = 50\<rparr> \<lparr>px = 500, py = 25\<rparr>
     = \<lparr>px = 100, py = 0\<rparr>
   \<and> getClosestPointOnNode \<lparr>px = 0, py = 0\<rparr> \<lparr>width = 100, height = 50\<rparr> \<lparr>px = 500, py = 25\<rparr>
     \<noteq> \<lparr>px = 100, py = 25\<rparr>
   \<and> on_boundary \<lparr>px = 0, py = 0\<rparr> \<lparr>width = 100, height = 50\<rparr> \<lparr>px = 100, py = 25\<rparr>
   \<and> dist2 \<lparr>px = 500, py = 25\<rparr> \<lparr>px = 100, py = 25\<rparr>
       < dist2 \<lparr>px = 500, py = 25\<rparr>
           (getClosestPointOnNode \<lparr>px = 0, py = 0\<rparr> \<lparr>width = 100, height = 50\<rparr>
              \<lparr>px = 500, py = 25\<rparr>)"
  by (simp add: getClosestPointOnNode_def on_boundary_def dist2_def Let_def)

section \<open>Connection session\<close>

lemma completeConnection_idle:
  "\<not> isActive cm \<or> \<not> truthy_str (sourceNodeId cm) \<Longrightarrow>
   completeConnection cm g now t tp = (cm, None)"
  by (auto simp: completeConnection_def truthy_str_def split: option.splits)

lemma completeConnection_self:
  "isActive cm \<Longrightarrow> sourceNodeId cm = Some src \<Longrightarrow> src \<noteq> [] \<Longrightarrow>
   completeConnection cm g now src tp = (cancelConnectionMode, None)"
  by (simp add: completeConnection_def)

lemma completeConnection_emits:
  "completeConnection cm g now t tp = (cm', Some g') \<Longrightarrow>
   \<exists>e. edges g' = edges g @ [e] \<and> sourceNodeId cm = Some (source e) \<and> target e = t \<and>
       source e \<noteq> t \<and> cm' = cancelConnectionMode \<and> isActive cm"
  by (auto simp: completeConnection_def createEdge_def Let_def split: option.splits if_splits)

lemma completeConnection_distinct:
  "isActive cm \<Longrightarrow> sourceNodeId cm = Some src \<Longrightarrow> src \<noteq> [] \<Longrightarrow> t \<noteq> src \<Longrightarrow>
   \<exists>e. completeConnection cm g now t tp =
         (cancelConnectionMode, Some (g\<lparr>edges := edges g @ [e]\<rparr>)) \<and>
       source e = src \<and> target e = t"
  by (auto simp: completeConnection_def createEdge_def Let_def split: option.splits)

lemma commit_emits: "commit s now t tp = (s', Some e) \<Longrightarrow> source e \<noteq> target e"
  by (auto simp: commit_def split: prod.splits option.splits list.splits
           dest!: completeConnection_emits)

lemma step_emits: "step s ev = (s', Some e) \<Longrightarrow> source e \<noteq> target e"
  by (cases ev) (auto split: if_splits option.splits prod.splits dest: commit_emits)

lemma run_emits: "run s evs = (s', outs) \<Longrightarrow> e \<in> set outs \<Longrightarrow> source e \<noteq> target e"
proof (induction evs arbitrary: s s' outs)
  case Nil
  then show ?case by simp
next
  case (Cons ev evs)
  obtain s1 out where st: "step s ev = (s1, out)" by (cases "step s ev")
  obtain s2 outs2 where r: "run s1 evs = (s2, outs2)" by (cases "run s1 evs")
  from Cons.prems st r
  have outs: "outs = (case out of None \<Rightarrow> outs2 | Some e \<Rightarrow> e # outs2)" by simp
  show ?case
  proof (cases out)
    case None
    with outs Cons.prems(2) Cons.IH[OF r] show ?thesis by simp
  next
    case (Some e')
    with outs Cons.prems(2) Cons.IH[OF r] step_emits[of s ev s1 e'] st show ?thesis by auto
  qed
qed

text \<open>
  C2. Whatever the session state and whatever the sequence of events (starts, cursor
  moves, mouse-ups, node clicks, cancels), every connection request emitted along the run
  has a target different from its source.
\<close>

theorem no_self_loop_emitted: "\<forall>e \<in> set (snd (run s evs)). source e \<noteq> target e"
  using run_emits[of s evs] by (cases "run s evs") auto

theorem no_self_loop_emitted_witness:
  "map (\<lambda>e. (source e, target e))
     (snd (run exIdle [StartFromHandle ''A'' HRight,
                       MouseMove \<lparr>px = 410, py = 25\<rparr> [exNodeA, exNodeB],
                       MouseUp ''17''])) = [(''A'', ''B'')]
   \<and> list_all (\<lambda>e. source e \<noteq> target e)
        (snd (run exIdle [StartFromHandle ''A'' HRight,
                          MouseMove \<lparr>px = 410, py = 25\<rparr> [exNodeA, exNodeB],
                          MouseUp ''17'']))"
proof -
  have "map (\<lambda>e. (source e, target e))
     (snd (run exIdle [StartFromHandle ''A'' HRight,
                       MouseMove \<lparr>px = 410, py = 25\<rparr> [exNodeA, exNodeB],
                       MouseUp ''17''])) = [(''A'', ''B'')]"
    by (simp add: session_defs Let_def)
  moreover have "list_all (\<lambda>e. source e \<noteq> target e)
        (snd (run exIdle [StartFromHandle ''A'' HRight,
                          MouseMove \<lparr>px = 410, py = 25\<rparr> [exNodeA, exNodeB],
                          MouseUp ''17'']))"
    unfolding list_all_iff by (rule no_self_loop_emitted)
  ultimately show ?thesis by blast
qed

lemma syncSystem_active: "isActive (connectionMode s) \<Longrightarrow> syncSystem s = s"
  by (simp add: syncSystem_def)

text \<open>
  C3, as stated, fails. In an Active session with source A, a click on node A itself
  reaches the self-loop guard of \<open>completeConnection\<close>, which calls \<open>cancelConnectionMode\<close>:
  no event is emitted, but the session is no longer Active and its state is reset.
\<close>

theorem commit_on_source_counterexample:
  "isActive (connectionMode exActive) \<and> sourceNodeId (connectionMode exActive) = Some ''A'' \<and>
   snd (step exActive (NodeClick ''17'' ''A'')) = None \<and>
   \<not> isActive (connectionMode (fst (step exActive (NodeClick ''17'' ''A'')))) \<and>
   fst (step exActive (NodeClick ''17'' ''A'')) \<noteq> exActive"
  by (simp add: session_defs)

text \<open>
  C3, amended. In an Active session with source \<open>src\<close>: a mouse-up commits the hovered
  target, a node click commits the clicked node; a mouse-up with no hovered target (no
  hovered node id or no snap point) emits nothing and leaves the whole session unchanged,
  still Active; a commit whose target is the source emits nothing and ends the session
  (connection mode reset to Idle, hover state cleared, graph unchanged); a commit with a
  distinct target emits one connection request from \<open>src\<close> to that target, appends it to the
  graph and ends the session.
\<close>

theorem commit_outcomes:
  assumes act: "isActive (connectionMode s)"
      and src: "sourceNodeId (connectionMode s) = Some src" "src \<noteq> []"
  shows "(handleMouseUp (system s) = None \<longrightarrow> step s (MouseUp now) = (s, None)) \<and>
         (\<forall>h sp. handleMouseUp (system s) = Some (h, sp) \<longrightarrow>
                   step s (MouseUp now) = commit s now h (Some sp)) \<and>
         step s (NodeClick now t) = commit s now t None \<and>
         commit s now src tp =
           (s\<lparr>connectionMode := cancelConnectionMode, system := resetSystem\<rparr>, None) \<and>
         (t \<noteq> src \<longrightarrow>
            (\<exists>e. commit s now t tp =
                   (s\<lparr>connectionMode := cancelConnectionMode,
                      graph := (graph s)\<lparr>edges := edges (graph s) @ [e]\<rparr>,
                      system := resetSystem\<rparr>, Some e) \<and>
                 source e = src \<and> target e = t))"
proof -
  have 1: "handleMouseUp (system s) = None \<longrightarrow> step s (MouseUp now) = (s, None)"
    using act by simp
  have 2: "\<forall>h sp. handleMouseUp (system s) = Some (h, sp) \<longrightarrow>
                   step s (MouseUp now) = commit s now h (Some sp)"
    using act by simp
  have 3: "step s (NodeClick now t) = commit s now t None"
    using act by simp
  have 4: "commit s now src tp =
             (s\<lparr>connectionMode := cancelConnectionMode, system := resetSystem\<rparr>, None)"
    using completeConnection_self[OF act src, of "graph s" now tp]
    by (simp add: commit_def syncSystem_def cancelConnectionMode_def)
  have 5: "t \<noteq> src \<longrightarrow>
            (\<exists>e. commit s now t tp =
                   (s\<lparr>connectionMode := cancelConnectionMode,
                      graph := (graph s)\<lparr>edges := edges (graph s) @ [e]\<rparr>,
                      system := resetSystem\<rparr>, Some e) \<and>
                 source e = src \<and> target e = t)"
  proof
    assume "t \<noteq> src"
    from completeConnection_distinct[OF act src this, of "graph s" now tp]
    obtain e where e: "completeConnection (connectionMode s) (graph s) now t tp =
         (cancelConnectionMode, Some ((graph s)\<lparr>edges := edges (graph s) @ [e]\<rparr>))"
       "source e = src" "target e = t" by blast
    then show "\<exists>e. commit s now t tp =
                   (s\<lparr>connectionMode := cancelConnectionMode,
                      graph := (graph s)\<lparr>edges := edges (graph s) @ [e]\<rparr>,
                      system := resetSystem\<rparr>, Some e) \<and>
                 source e = src \<and> target e = t"
      by (intro exI[of _ e]) (simp add: commit_def syncSystem_def cancelConnectionMode_def)
  qed
  from 1 2 3 4 5 show ?thesis by blast
qed

theorem commit_outcomes_witness:
  "isActive (connectionMode exActive) \<and>
   sourceNodeId (connectionMode exActive) = Some ''A'' \<and>
   handleMouseUp (system exActive) = None \<and>
   step exActive (MouseUp ''17'') = (exActive, None) \<and>
   step exActive (NodeClick ''17'' ''A'') =
     (exActive\<lparr>connectionMode := cancelConnectionMode, system := resetSystem\<rparr>, None) \<and>
   (\<exists>e. step exActive (NodeClick ''17'' ''B'') =
          (exActive\<lparr>connectionMode := cancelConnectionMode,
             graph := (graph exActive)\<lparr>edges := edges (graph exActive) @ [e]\<rparr>,
             system := resetSystem\<rparr>, Some e) \<and>
        source e = ''A'' \<and> target e = ''B'')"
proof -
  have a: "isActive (connectionMode exActive)"
    and b: "sourceNodeId (connectionMode exActive) = Some ''A''"
    and c: "handleMouseUp (system exActive) = None"
    by (simp_all add: exActive_def startConnectionFromHandle_def handleMouseUp_def)
  have d: "''A'' \<noteq> ([] :: string)" "''B'' \<noteq> ''A''" by simp_all
  from commit_outcomes[OF a b d(1), of "''17''" "''A''" None]
  have "step exActive (MouseUp ''17'') = (exActive, None)"
    and "step exActive (NodeClick ''17'' ''A'') =
     (exActive\<lparr>connectionMode := cancelConnectionMode, system := resetSystem\<rparr>, None)"
    using c by simp_all
  moreover from commit_outcomes[OF a b d(1), of "''17''" "''B''" None] d(2)
  have "\<exists>e. step exActive (NodeClick ''17'' ''B'') =
          (exActive\<lparr>connectionMode := cancelConnectionMode,
             graph := (graph exActive)\<lparr>edges := edges (graph exActive) @ [e]\<rparr>,
             system := resetSystem\<rparr>, Some e) \<and>
        source e = ''A'' \<and> target e = ''B''"
    by simp
  ultimately show ?thesis using a b c by blast
qed

lemma findHovered_find:
  "findHovered (Some S) p ns =
     (map_option rf_id (find (\<lambda>n. rf_id n \<noteq> S \<and> in_padded_box n p) ns),
      map_option (\<lambda>n. getClosestPointOnNode (rf_position n) (rf_nodeSize n) p)
        (find (\<lambda>n. rf_id n \<noteq> S \<and> in_padded_box n p) ns))"
  by (induction ns) auto

lemma in_padded_box_20:
  "in_padded_box n p \<longleftrightarrow>
     px (rf_position n) - 20 \<le> px p \<and> px p \<le> px (rf_position n) + width (rf_nodeSize n) + 20 \<and>
     py (rf_position n) - 20 \<le> py p \<and> py p \<le> py (rf_position n) + height (rf_nodeSize n) + 20"
  by (simp add: in_padded_box_def padding_def Let_def)

text \<open>The box of a node is built from the node's own size: \<open>data.node.size\<close> when present
  and non-zero, else the measured \<open>width\<close> / \<open>height\<close> when present and non-zero, else
  192 by 96.\<close>

lemma rf_nodeSize_own:
  "width (rf_nodeSize n) =
     (case rf_data_size n of
        Some sz \<Rightarrow> if width sz \<noteq> 0 then width sz
                   else (case rf_width n of Some w \<Rightarrow> if w \<noteq> 0 then w else 192 | None \<Rightarrow> 192)
      | None \<Rightarrow> (case rf_width n of Some w \<Rightarrow> if w \<noteq> 0 then w else 192 | None \<Rightarrow> 192))"
  "height (rf_nodeSize n) =
     (case rf_data_size n of
        Some sz \<Rightarrow> if height sz \<noteq> 0 then height sz
                   else (case rf_height n of Some h \<Rightarrow> if h \<noteq> 0 then h else 96 | None \<Rightarrow> 96)
      | None \<Rightarrow> (case rf_height n of Some h \<Rightarrow> if h \<noteq> 0 then h else 96 | None \<Rightarrow> 96))"
  by (simp_all add: rf_nodeSize_def opt_or_def num_or_def split: option.splits)

text \<open>What the cursor update does achieve. The hovered node is the first node of the list
  that is not the source and whose padded box contains the cursor; the snap point is the
  result of \<open>getClosestPointOnNode\<close> on that node's own box; with no such node both are
  none. When the cursor is inside the unpadded box, the snap point is a nearest boundary
  point of that box.\<close>

lemma handleMouseMove_find:
  assumes "isActive (connectionMode s)" and "sourceNodeId (connectionMode s) = Some S"
  shows "system (fst (step s (MouseMove p ns))) =
           \<lparr>cursorPosition = Some p,
            hoveredNodeId = map_option rf_id (find (\<lambda>n. rf_id n \<noteq> S \<and> in_padded_box n p) ns),
            snapPosition =
              map_option (\<lambda>n. getClosestPointOnNode (rf_position n) (rf_nodeSize n) p)
                (find (\<lambda>n. rf_id n \<noteq> S \<and> in_padded_box n p) ns)\<rparr>"
  using assms by (simp add: handleMouseMove_def findHovered_find)

lemma snap_inside_nearest:
  assumes act: "isActive (connectionMode s)" "sourceNodeId (connectionMode s) = Some S"
      and hov: "find (\<lambda>n. rf_id n \<noteq> S \<and> in_padded_box n p) ns = Some n"
      and inside: "px (rf_position n) \<le> px p" "px p \<le> px (rf_position n) + width (rf_nodeSize n)"
                  "py (rf_position n) \<le> py p" "py p \<le> py (rf_position n) + height (rf_nodeSize n)"
      and b: "on_boundary (rf_position n) (rf_nodeSize n) b"
  shows "\<exists>q. snapPosition (system (fst (step s (MouseMove p ns)))) = Some q \<and>
             on_boundary (rf_position n) (rf_nodeSize n) q \<and> dist2 p q \<le> dist2 p b"
proof -
  let ?q = "getClosestPointOnNode (rf_position n) (rf_nodeSize n) p"
  have "snapPosition (system (fst (step s (MouseMove p ns)))) = Some ?q"
    unfolding handleMouseMove_find[OF act] by (simp add: hov)
  moreover from inside have "0 \<le> width (rf_nodeSize n)" "0 \<le> height (rf_nodeSize n)"
    by linarith+
  then have "on_boundary (rf_position n) (rf_nodeSize n) ?q"
    by (rule getClosestPointOnNode_on_boundary)
  moreover have "dist2 p ?q \<le> dist2 p b"
    by (rule getClosestPointOnNode_inside[OF inside b])
  ultimately show ?thesis by blast
qed

text \<open>
  C4. The hovered node id is set as the claim says, but the snap point is not always the
  closest boundary point of the hovered node's box. In the Active session with source A,
  node B has its own size 100 by 50 at (400,0); the cursor (515,3) lies in the 20-unit
  padding band to the right of B, so B is hovered. \<open>getClosestPointOnNode\<close> compares the
  distances to the four edge lines (115, 15, 3, 47), takes the top edge and clamps x: the
  snap point is the corner (500,0), although (500,3) is on B's boundary and strictly nearer
  to the cursor. This is the slip of \<open>getClosestPointOnNode\<close> shown for C1, reached
  through its only caller.
\<close>

theorem cursor_update_snap_not_nearest:
  "isActive (connectionMode exActive) \<and>
   sourceNodeId (connectionMode exActive) = Some ''A'' \<and>
   rf_position exNodeB = \<lparr>px = 400, py = 0\<rparr> \<and>
   rf_nodeSize exNodeB = \<lparr>width = 100, height = 50\<rparr> \<and>
   in_padded_box exNodeB \<lparr>px = 515, py = 3\<rparr> \<and>
   system (fst (step exActive (MouseMove \<lparr>px = 515, py = 3\<rparr> [exNodeA, exNodeB]))) =
     \<lparr>cursorPosition = Some \<lparr>px = 515, py = 3\<rparr>, hoveredNodeId = Some ''B'',
      snapPosition = Some \<lparr>px = 500, py = 0\<rparr>\<rparr> \<and>
   on_boundary (rf_position exNodeB) (rf_nodeSize exNodeB) \<lparr>px = 500, py = 3\<rparr> \<and>
   dist2 \<lparr>px = 515, py = 3\<rparr> \<lparr>px = 500, py = 3\<rparr> <
     dist2 \<lparr>px = 515, py = 3\<rparr> \<lparr>px = 500, py = 0\<rparr>"
  by (simp add: exActive_def exNodeA_def exNodeB_def startConnectionFromHandle_def
        handleMouseMove_def in_padded_box_def rf_nodeSize_def opt_or_def num_or_def padding_def
        getClosestPointOnNode_def on_boundary_def dist2_def Let_def)

text \<open>
  C10. When no connection session is active (\<open>isActive\<close> is false, or the source node id is
  null or empty), \<open>completeConnection\<close> returns at its first guard: \<open>onGraphChange\<close> is not
  called and \<open>connectionMode\<close> is unchanged; a mouse-up or a node click in such a session
  emits nothing and leaves the whole session, graph included, as it was.
\<close>

theorem commit_when_idle:
  assumes "\<not> isActive (connectionMode s) \<or> \<not> truthy_str (sourceNodeId (connectionMode s))"
  shows "completeConnection (connectionMode s) (graph s) now t tp = (connectionMode s, None) \<and>
         step s (MouseUp now) = (s, None) \<and> step s (NodeClick now t) = (s, None)"
  using completeConnection_idle[OF assms]
  by (auto simp: commit_def syncSystem_def split: option.splits)

theorem commit_when_idle_witness:
  "\<not> isActive (connectionMode exIdle) \<and>
   completeConnection (connectionMode exIdle) (graph exIdle) ''17'' ''B'' None
     = (connectionMode exIdle, None) \<and>
   step exIdle (MouseUp ''17'') = (exIdle, None) \<and>
   step exIdle (NodeClick ''17'' ''B'') = (exIdle, None)"
proof -
  have a: "\<not> isActive (connectionMode exIdle)"
    by (simp add: exIdle_def cancelConnectionMode_def)
  then have "\<not> isActive (connectionMode exIdle) \<or>
             \<not> truthy_str (sourceNodeId (connectionMode exIdle))" by blast
  from commit_when_idle[OF this, of "''17''" "''B''" None] a show ?thesis by blast
qed

section \<open>Cycle detection\<close>

lemma reaches_cycleI: "(v, c) \<in> E\<^sup>* \<Longrightarrow> (c, c) \<in> E\<^sup>+ \<Longrightarrow> reaches_cycle E v"
  unfolding reaches_cycle_def by (intro exI conjI)

lemma reaches_cycleE:
  assumes "reaches_cycle E v"
  obtains c where "(v, c) \<in> E\<^sup>*" "(c, c) \<in> E\<^sup>+"
  using assms unfolding reaches_cycle_def by (elim exE conjE)

lemma closed_underD: "closed_under E B \<Longrightarrow> u \<in> B \<Longrightarrow> (u, w) \<in> E \<Longrightarrow> w \<in> B"
  unfolding closed_under_def by blast

lemma acyclic_onD: "acyclic_on E B \<Longrightarrow> u \<in> B \<Longrightarrow> (u, u) \<notin> E\<^sup>+"
  unfolding acyclic_on_def by (elim allE[of _ u] impE) assumption+

lemma closed_under_rtrancl:
  assumes "closed_under E B" "(u, w) \<in> E\<^sup>*" "u \<in> B"
  shows "w \<in> B"
  using assms(2,3)
proof (induction rule: rtrancl_induct)
  case base
  then show ?case .
next
  case (step y z)
  from closed_underD[OF assms(1) step.IH[OF step.prems] step.hyps(2)] show ?case .
qed

lemma adj_get_map_push:
  "adj_get (map_push k v adjacency) k' =
     (if k' = k then adj_get adjacency k @ [v] else adj_get adjacency k')"
  by (induction adjacency) (auto simp: adj_get_def)

lemma adj_get_fold:
  "adj_get (fold (\<lambda>edge adjacency. map_push (source edge) (target edge) adjacency) es acc) u =
     adj_get acc u @ map target (filter (\<lambda>e. source e = u) es)"
  by (induction es arbitrary: acc) (auto simp: adj_get_map_push)

lemma adj_get_buildAdjacency:
  "adj_get (buildAdjacency es) u = map target (filter (\<lambda>e. source e = u) es)"
  by (simp add: buildAdjacency_def adj_get_fold) (simp add: adj_get_def)

lemma adj_rel_buildAdjacency: "adj_rel (buildAdjacency es) = edge_rel es"
  by (auto simp: adj_rel_def edge_rel_def adj_get_buildAdjacency)

lemma black_no_cycle:
  assumes "dfs_inv E st" "u \<in> visited st - recursionStack st"
  shows "\<not> reaches_cycle E u"
proof
  assume "reaches_cycle E u"
  then obtain c where c: "(u, c) \<in> E\<^sup>*" "(c, c) \<in> E\<^sup>+" by (rule reaches_cycleE)
  from assms(1) have cl: "closed_under E (visited st - recursionStack st)"
    and ac: "acyclic_on E (visited st - recursionStack st)"
    by (simp_all add: dfs_inv_def)
  from closed_under_rtrancl[OF cl c(1) assms(2)] have "c \<in> visited st - recursionStack st" .
  from acyclic_onD[OF ac this] c(2) show False by contradiction
qed


lemma dfs_post_True: "dfs_post E st vs (True, st') = (\<exists>v \<in> vs. reaches_cycle E v)"
  by (simp add: dfs_post_def)

lemma dfs_post_False:
  "dfs_post E st vs (False, st') =
     (dfs_inv E st' \<and> recursionStack st' = recursionStack st \<and>
      visited st \<subseteq> visited st' \<and> vs \<subseteq> visited st' - recursionStack st)"
  by (simp add: dfs_post_def)

lemma dfs_inv_push:
  assumes inv: "dfs_inv E st" and notV: "v \<notin> visited st"
  shows "dfs_inv E (st\<lparr>visited := insert v (visited st),
                       recursionStack := insert v (recursionStack st)\<rparr>)"
proof -
  have "insert v (visited st) - insert v (recursionStack st) = visited st - recursionStack st"
    using notV by blast
  with inv show ?thesis by (simp add: dfs_inv_def subset_insertI2)
qed

lemma dfs_inv_pop:
  assumes inv2: "dfs_inv E st2"
    and s2: "recursionStack st2 = insert v S" and notS: "v \<notin> S"
    and v2: "v \<in> visited st2"
    and succ: "\<And>w. (v, w) \<in> E \<Longrightarrow> w \<in> visited st2 - recursionStack st2"
  shows "dfs_inv E (st2\<lparr>recursionStack := recursionStack st2 - {v}\<rparr>)"
proof -
  let ?B2 = "visited st2 - recursionStack st2"
  from inv2 have sub: "recursionStack st2 \<subseteq> visited st2" and cl: "closed_under E ?B2"
    and ac: "acyclic_on E ?B2"
    by (simp_all add: dfs_inv_def)
  have B3: "visited st2 - (recursionStack st2 - {v}) = insert v ?B2"
    using v2 s2 by blast
  have nocyc: "(v, v) \<notin> E\<^sup>+"
  proof
    assume "(v, v) \<in> E\<^sup>+"
    then obtain w where w: "(v, w) \<in> E" "(w, v) \<in> E\<^sup>*"
      by (rule tranclD[THEN exE]) (elim conjE)
    from closed_under_rtrancl[OF cl w(2) succ[OF w(1)]] have "v \<in> ?B2" .
    with s2 show False by simp
  qed
  have cl3: "closed_under E (insert v ?B2)"
    unfolding closed_under_def
  proof (intro allI impI, elim conjE)
    fix u w assume u: "u \<in> insert v ?B2" and e: "(u, w) \<in> E"
    show "w \<in> insert v ?B2"
    proof (cases "u = v")
      case True
      with e succ show ?thesis by simp
    next
      case False
      with u have "u \<in> ?B2" by simp
      from closed_underD[OF cl this e] show ?thesis by simp
    qed
  qed
  have ac3: "acyclic_on E (insert v ?B2)"
    unfolding acyclic_on_def
  proof (intro allI impI)
    fix u assume u: "u \<in> insert v ?B2"
    show "(u, u) \<notin> E\<^sup>+"
    proof (cases "u = v")
      case True
      with nocyc show ?thesis by simp
    next
      case False
      with u have "u \<in> ?B2" by simp
      from acyclic_onD[OF ac this] show ?thesis .
    qed
  qed
  have "recursionStack st2 - {v} \<subseteq> visited st2" using sub by blast
  with cl3 ac3 show ?thesis by (simp add: dfs_inv_def B3)
qed


lemma hasCycle_correct:
  "dfs_inv (adj_rel adjacency) st \<Longrightarrow>
   (\<forall>g \<in> recursionStack st. (g, nodeId) \<in> (adj_rel adjacency)\<^sup>+) \<Longrightarrow>
     dfs_post (adj_rel adjacency) st {nodeId} (hasCycle adjacency nodeId st)"
  "dfs_inv (adj_rel adjacency) st \<Longrightarrow>
   (\<forall>n \<in> set ns. \<forall>g \<in> recursionStack st. (g, n) \<in> (adj_rel adjacency)\<^sup>+) \<Longrightarrow>
     dfs_post (adj_rel adjacency) st (set ns) (hasCycle_loop adjacency ns st)"
proof (induction adjacency nodeId st and adjacency ns st rule: hasCycle_hasCycle_loop.induct)
  case (1 adjacency nodeId st)
  let ?E = "adj_rel adjacency"
  note inv = 1(2) and path = 1(3)
  show ?case
  proof (cases "nodeId \<in> recursionStack st")
    case True
    with path have "(nodeId, nodeId) \<in> ?E\<^sup>+" by (rule bspec)
    then have "reaches_cycle ?E nodeId" by (intro reaches_cycleI[of _ nodeId]) simp_all
    moreover have "hasCycle adjacency nodeId st = (True, st)"
      using True by (subst hasCycle.simps) simp
    ultimately show ?thesis by (simp add: dfs_post_True)
  next
    case notS: False
    show ?thesis
    proof (cases "nodeId \<in> visited st")
      case True
      have "hasCycle adjacency nodeId st = (False, st)"
        using True notS by (subst hasCycle.simps) simp
      with True notS inv show ?thesis by (simp add: dfs_post_False)
    next
      case notV: False
      let ?st1 = "st\<lparr>visited := insert nodeId (visited st),
                    recursionStack := insert nodeId (recursionStack st)\<rparr>"
      have inv1: "dfs_inv ?E ?st1" by (rule dfs_inv_push[OF inv notV])
      have pre1: "\<forall>n \<in> set (adj_get adjacency nodeId). \<forall>g \<in> recursionStack ?st1.
                    (g, n) \<in> ?E\<^sup>+"
      proof (intro ballI)
        fix n g
        assume n: "n \<in> set (adj_get adjacency nodeId)" and g: "g \<in> recursionStack ?st1"
        from n have e: "(nodeId, n) \<in> ?E" by (simp add: adj_rel_def)
        show "(g, n) \<in> ?E\<^sup>+"
        proof (cases "g = nodeId")
          case True
          with e show ?thesis by (simp add: r_into_trancl')
        next
          case False
          with g have "g \<in> recursionStack st" by simp
          with path have "(g, nodeId) \<in> ?E\<^sup>+" by (rule bspec)
          from this e show ?thesis by (rule trancl_into_trancl)
        qed
      qed
      from 1(1)[OF notS notV inv1 pre1]
      have post: "dfs_post ?E ?st1 (set (adj_get adjacency nodeId))
                    (hasCycle_loop adjacency (adj_get adjacency nodeId) ?st1)" .
      obtain b st2 where r: "hasCycle_loop adjacency (adj_get adjacency nodeId) ?st1 = (b, st2)"
        by (cases "hasCycle_loop adjacency (adj_get adjacency nodeId) ?st1")
      show ?thesis
      proof (cases b)
        case True
        from post have "\<exists>n \<in> set (adj_get adjacency nodeId). reaches_cycle ?E n"
          by (simp add: r True dfs_post_True)
        then obtain n where n: "n \<in> set (adj_get adjacency nodeId)" "reaches_cycle ?E n"
          by (rule bexE)
        from n(2) obtain c where c: "(n, c) \<in> ?E\<^sup>*" "(c, c) \<in> ?E\<^sup>+"
          by (rule reaches_cycleE)
        from n(1) have "(nodeId, n) \<in> ?E" by (simp add: adj_rel_def)
        from this c(1) have "(nodeId, c) \<in> ?E\<^sup>*" by (rule converse_rtrancl_into_rtrancl)
        from this c(2) have "reaches_cycle ?E nodeId" by (rule reaches_cycleI)
        moreover have "hasCycle adjacency nodeId st = (True, st2)"
          using notS notV by (subst hasCycle.simps) (simp add: r True)
        ultimately show ?thesis by (simp add: dfs_post_True)
      next
        case False
        from post have p2: "dfs_inv ?E st2 \<and> recursionStack st2 = recursionStack ?st1 \<and>
            visited ?st1 \<subseteq> visited st2 \<and>
            set (adj_get adjacency nodeId) \<subseteq> visited st2 - recursionStack ?st1"
          by (simp add: r False dfs_post_False)
        then have inv2: "dfs_inv ?E st2"
          and s2: "recursionStack st2 = insert nodeId (recursionStack st)"
          and v2: "insert nodeId (visited st) \<subseteq> visited st2"
          and succ: "set (adj_get adjacency nodeId) \<subseteq> visited st2 - insert nodeId (recursionStack st)"
          by simp_all
        let ?st3 = "st2\<lparr>recursionStack := recursionStack st2 - {nodeId}\<rparr>"
        have succ': "\<And>w. (nodeId, w) \<in> ?E \<Longrightarrow> w \<in> visited st2 - recursionStack st2"
          using succ s2 by (auto simp: adj_rel_def)
        from v2 have nv2: "nodeId \<in> visited st2" by simp
        have inv3: "dfs_inv ?E ?st3"
          by (rule dfs_inv_pop[OF inv2 s2 notS nv2 succ'])
        have s3: "recursionStack ?st3 = recursionStack st" using s2 notS by simp
        have h: "hasCycle adjacency nodeId st = (False, ?st3)"
          using notS notV by (subst hasCycle.simps) (simp add: r False)
        have "nodeId \<in> visited ?st3 - recursionStack st" using nv2 notS by simp
        moreover have "visited st \<subseteq> visited ?st3" using v2 by simp
        ultimately show ?thesis using inv3 s3 by (simp add: h dfs_post_False)
      qed
    qed
  qed
next
  case (2 adjacency st)
  then show ?case by (simp add: dfs_post_False)
next
  case (3 adjacency neighbor rest st)
  let ?E = "adj_rel adjacency"
  note inv = 3(3) and path = 3(4)
  from path have "\<forall>g \<in> recursionStack st. (g, neighbor) \<in> ?E\<^sup>+" by simp
  from 3(1)[OF inv this]
  have p: "dfs_post ?E st {neighbor} (hasCycle adjacency neighbor st)" .
  obtain b st1 where r: "hasCycle adjacency neighbor st = (b, st1)"
    by (cases "hasCycle adjacency neighbor st")
  show ?case
  proof (cases b)
    case True
    from p have "reaches_cycle ?E neighbor" by (simp add: r True dfs_post_True)
    moreover have e: "hasCycle_loop adjacency (neighbor # rest) st = (True, st1)"
      by (simp add: r True)
    ultimately show ?thesis unfolding e by (simp add: dfs_post_True)
  next
    case False
    from p have "dfs_inv ?E st1 \<and> recursionStack st1 = recursionStack st \<and>
        visited st \<subseteq> visited st1 \<and> {neighbor} \<subseteq> visited st1 - recursionStack st"
      by (simp add: r False dfs_post_False)
    then have inv1: "dfs_inv ?E st1" and s1: "recursionStack st1 = recursionStack st"
      and v1: "visited st \<subseteq> visited st1" and n1: "neighbor \<in> visited st1 - recursionStack st"
      by simp_all
    from path s1 have pre: "\<forall>n \<in> set rest. \<forall>g \<in> recursionStack st1. (g, n) \<in> ?E\<^sup>+"
      by simp
    from False have bF: "b = False" by simp
    from 3(2)[OF r[symmetric] bF inv1 pre]
    have q: "dfs_post ?E st1 (set rest) (hasCycle_loop adjacency rest st1)" .
    obtain b' st2 where r2: "hasCycle_loop adjacency rest st1 = (b', st2)"
      by (cases "hasCycle_loop adjacency rest st1")
    have e: "hasCycle_loop adjacency (neighbor # rest) st = (b', st2)"
      by (simp add: r False r2)
    show ?thesis
    proof (cases b')
      case True
      from q have "\<exists>n \<in> set rest. reaches_cycle ?E n" by (simp add: r2 True dfs_post_True)
      then show ?thesis unfolding e by (simp add: True dfs_post_True)
    next
      case False
      from q have "dfs_inv ?E st2 \<and> recursionStack st2 = recursionStack st1 \<and>
        visited st1 \<subseteq> visited st2 \<and> set rest \<subseteq> visited st2 - recursionStack st1"
        by (simp add: r2 False dfs_post_False)
      with s1 v1 n1 show ?thesis unfolding e by (auto simp add: False dfs_post_False)
    qed
  qed
qed


lemma checkNodes_correct:
  "dfs_inv (adj_rel adjacency) st \<Longrightarrow> recursionStack st = {} \<Longrightarrow>
   checkNodes adjacency ns st = (\<forall>n \<in> set ns. \<not> reaches_cycle (adj_rel adjacency) (node_id n))"
proof (induction ns arbitrary: st)
  case Nil
  then show ?case by simp
next
  case (Cons node rest)
  let ?E = "adj_rel adjacency"
  show ?case
  proof (cases "node_id node \<in> visited st")
    case True
    with Cons.prems have "node_id node \<in> visited st - recursionStack st" by simp
    from black_no_cycle[OF Cons.prems(1) this] Cons.IH[OF Cons.prems] True
    show ?thesis by simp
  next
    case False
    from Cons.prems(2) have "\<forall>g \<in> recursionStack st. (g, node_id node) \<in> ?E\<^sup>+" by simp
    from hasCycle_correct(1)[OF Cons.prems(1) this]
    have p: "dfs_post ?E st {node_id node} (hasCycle adjacency (node_id node) st)" .
    obtain b st1 where r: "hasCycle adjacency (node_id node) st = (b, st1)"
      by (cases "hasCycle adjacency (node_id node) st")
    show ?thesis
    proof (cases b)
      case True
      from p have "reaches_cycle ?E (node_id node)" by (simp add: r True dfs_post_True)
      with False show ?thesis by (simp add: r True)
    next
      case bF: False
      from p have "dfs_inv ?E st1 \<and> recursionStack st1 = recursionStack st \<and>
        visited st \<subseteq> visited st1 \<and> {node_id node} \<subseteq> visited st1 - recursionStack st"
        by (simp add: r bF dfs_post_False)
      then have inv1: "dfs_inv ?E st1" and s1: "recursionStack st1 = {}"
        and n1: "node_id node \<in> visited st1 - recursionStack st1"
        using Cons.prems(2) by simp_all
      from black_no_cycle[OF inv1 n1] Cons.IH[OF inv1 s1] False
      show ?thesis by (simp add: r bF)
    qed
  qed
qed

lemma dfs_inv_init: "dfs_inv E \<lparr>visited = {}, recursionStack = {}\<rparr>"
  by (simp add: dfs_inv_def closed_under_def acyclic_on_def)

lemma isHierarchicalGraph_reach:
  "isHierarchicalGraph ns es \<longleftrightarrow>
     es \<noteq> [] \<and> (\<forall>n \<in> set ns. \<not> reaches_cycle (edge_rel es) (node_id n))"
  using checkNodes_correct[OF dfs_inv_init, of "buildAdjacency es" ns]
  by (simp add: isHierarchicalGraph_def adj_rel_buildAdjacency)

lemma edge_rel_source: "(u, w) \<in> edge_rel es \<Longrightarrow> u \<in> source ` set es"
  by (auto simp: edge_rel_def)

lemma no_reachable_cycle_iff_acyclic:
  assumes "\<forall>e \<in> set es. source e \<in> node_id ` set ns \<and> target e \<in> node_id ` set ns"
  shows "(\<forall>n \<in> set ns. \<not> reaches_cycle (edge_rel es) (node_id n)) \<longleftrightarrow> acyclic (edge_rel es)"
proof
  assume a: "\<forall>n \<in> set ns. \<not> reaches_cycle (edge_rel es) (node_id n)"
  show "acyclic (edge_rel es)"
    unfolding acyclic_def
  proof (intro allI notI)
    fix c assume c: "(c, c) \<in> (edge_rel es)\<^sup>+"
    then obtain w where "(c, w) \<in> edge_rel es" by (rule tranclD[THEN exE]) (elim conjE)
    then have "c \<in> source ` set es" by (rule edge_rel_source)
    with assms have "c \<in> node_id ` set ns" by blast
    then obtain n where n: "n \<in> set ns" "c = node_id n" by blast
    have "reaches_cycle (edge_rel es) c" by (rule reaches_cycleI[OF rtrancl_refl c])
    with a n show False by simp
  qed
next
  assume a: "acyclic (edge_rel es)"
  show "\<forall>n \<in> set ns. \<not> reaches_cycle (edge_rel es) (node_id n)"
  proof (intro ballI notI)
    fix n assume "reaches_cycle (edge_rel es) (node_id n)"
    then obtain c where "(c, c) \<in> (edge_rel es)\<^sup>+" by (rule reaches_cycleE)
    with a show False unfolding acyclic_def by simp
  qed
qed

lemma isHierarchicalGraph_tree: "isHierarchicalGraph exTreeNodes exTreeEdges"
  by (simp add: isHierarchicalGraph_def buildAdjacency_def graph_defs hasCycle.simps adj_get_def)

lemma isHierarchicalGraph_cycle: "\<not> isHierarchicalGraph exChainNodes exCycleEdges"
  by (simp add: isHierarchicalGraph_def buildAdjacency_def graph_defs hasCycle.simps adj_get_def)

text \<open>
  C6. \<open>isHierarchicalGraph\<close> is false for an empty edge list; otherwise it is true exactly
  when no cycle is reachable from any node of the node list. When every edge refers to
  nodes of the list, that is: exactly when the edge relation is acyclic. The graph
  A\<rightarrow>B\<rightarrow>C\<rightarrow>A is reported cyclic, and A\<rightarrow>B, A\<rightarrow>C, B\<rightarrow>D acyclic.
\<close>

theorem isHierarchicalGraph_acyclic:
  "(isHierarchicalGraph ns es \<longleftrightarrow>
      es \<noteq> [] \<and> (\<forall>n \<in> set ns. \<not> reaches_cycle (edge_rel es) (node_id n))) \<and>
   ((\<forall>e \<in> set es. source e \<in> node_id ` set ns \<and> target e \<in> node_id ` set ns) \<longrightarrow>
      (isHierarchicalGraph ns es \<longleftrightarrow> es \<noteq> [] \<and> acyclic (edge_rel es)))"
  using isHierarchicalGraph_reach[of ns es] no_reachable_cycle_iff_acyclic[of es ns]
  by simp

theorem isHierarchicalGraph_acyclic_witness:
  "\<not> isHierarchicalGraph exChainNodes [] \<and>
   \<not> isHierarchicalGraph exChainNodes exCycleEdges \<and> \<not> acyclic (edge_rel exCycleEdges) \<and>
   isHierarchicalGraph exTreeNodes exTreeEdges \<and> acyclic (edge_rel exTreeEdges)"
proof -
  have refs1: "\<forall>e \<in> set exCycleEdges.
      source e \<in> node_id ` set exChainNodes \<and> target e \<in> node_id ` set exChainNodes"
    by (simp add: graph_defs)
  have refs2: "\<forall>e \<in> set exTreeEdges.
      source e \<in> node_id ` set exTreeNodes \<and> target e \<in> node_id ` set exTreeNodes"
    by (simp add: graph_defs)
  have ne: "exCycleEdges \<noteq> []" "exTreeEdges \<noteq> []" by (simp_all add: graph_defs)
  have "\<not> isHierarchicalGraph exChainNodes []"
    using isHierarchicalGraph_acyclic[of exChainNodes "[]"] by simp
  moreover have "\<not> acyclic (edge_rel exCycleEdges)"
    using isHierarchicalGraph_acyclic[of exChainNodes exCycleEdges] refs1 ne(1)
      isHierarchicalGraph_cycle by blast
  moreover have "acyclic (edge_rel exTreeEdges)"
    using isHierarchicalGraph_acyclic[of exTreeNodes exTreeEdges] refs2 ne(2)
      isHierarchicalGraph_tree by blast
  ultimately show ?thesis using isHierarchicalGraph_cycle isHierarchicalGraph_tree by blast
qed

section \<open>Hierarchical layout\<close>

lemma visitChildren_levels:
  "fst (visitChildren cs l lv q) w = (if lv w = None \<and> w \<in> set cs then Some (l + 1) else lv w)"
  by (induction cs arbitrary: lv q) auto

lemma visitChildren_queue:
  "\<exists>new. snd (visitChildren cs l lv q) = q @ new \<and>
         (\<forall>e \<in> set new. snd e = l + 1 \<and> fst e \<in> set cs \<and> lv (fst e) = None) \<and>
         (\<forall>c \<in> set cs. lv c = None \<longrightarrow> (c, l + 1) \<in> set new)"
proof (induction cs arbitrary: lv q)
  case Nil
  show ?case by simp
next
  case (Cons c cs)
  show ?case
  proof (cases "lv c = None")
    case True
    from Cons.IH[of "lv(c \<mapsto> l + 1)" "q @ [(c, l + 1)]"]
    obtain new where new: "snd (visitChildren cs l (lv(c \<mapsto> l + 1)) (q @ [(c, l + 1)])) = (q @ [(c, l + 1)]) @ new"
      "\<forall>e \<in> set new. snd e = l + 1 \<and> fst e \<in> set cs \<and> (lv(c \<mapsto> l + 1)) (fst e) = None"
      "\<forall>c' \<in> set cs. (lv(c \<mapsto> l + 1)) c' = None \<longrightarrow> (c', l + 1) \<in> set new"
      by blast
    show ?thesis
    proof (intro exI[of _ "(c, l + 1) # new"] conjI ballI impI)
      show "snd (visitChildren (c # cs) l lv q) = q @ (c, l + 1) # new"
        using True new(1) by simp
    next
      fix e assume "e \<in> set ((c, l + 1) # new)"
      then show "snd e = l + 1" using new(2) by auto
    next
      fix e assume "e \<in> set ((c, l + 1) # new)"
      then show "fst e \<in> set (c # cs)" using new(2) by auto
    next
      fix e assume e: "e \<in> set ((c, l + 1) # new)"
      show "lv (fst e) = None"
      proof (cases "e = (c, l + 1)")
        case True with \<open>lv c = None\<close> show ?thesis by simp
      next
        case False
        with e have "e \<in> set new" by simp
        with new(2) have "(lv(c \<mapsto> l + 1)) (fst e) = None" by blast
        then show ?thesis by (simp split: if_splits)
      qed
    next
      fix c' assume c': "c' \<in> set (c # cs)" "lv c' = None"
      show "(c', l + 1) \<in> set ((c, l + 1) # new)"
      proof (cases "c' = c")
        case True then show ?thesis by simp
      next
        case False
        with c' have "c' \<in> set cs" "(lv(c \<mapsto> l + 1)) c' = None" by simp_all
        with new(3) show ?thesis by simp
      qed
    qed
  next
    case False
    from Cons.IH[of lv q]
    obtain new where new: "snd (visitChildren cs l lv q) = q @ new"
      "\<forall>e \<in> set new. snd e = l + 1 \<and> fst e \<in> set cs \<and> lv (fst e) = None"
      "\<forall>c' \<in> set cs. lv c' = None \<longrightarrow> (c', l + 1) \<in> set new"
      by blast
    show ?thesis
    proof (intro exI[of _ new] conjI ballI impI)
      show "snd (visitChildren (c # cs) l lv q) = q @ new" using False new(1) by auto
    next
      fix e assume "e \<in> set new" then show "snd e = l + 1" using new(2) by blast
    next
      fix e assume "e \<in> set new" then show "fst e \<in> set (c # cs)" using new(2) by simp
    next
      fix e assume "e \<in> set new" then show "lv (fst e) = None" using new(2) by blast
    next
      fix c' assume c': "c' \<in> set (c # cs)" "lv c' = None"
      with False have "c' \<in> set cs" by auto
      with new(3) c'(2) show "(c', l + 1) \<in> set new" by blast
    qed
  qed
qed

lemma seedRoots_closed:
  "seedRoots rs lv q =
     (\<lambda>w. if w \<in> node_id ` set rs then Some 0 else lv w, q @ map (\<lambda>r. (node_id r, 0)) rs)"
  by (induction rs arbitrary: lv q) (auto simp: fun_eq_iff)

lemma is_dist_reach: "is_dist E R v l \<Longrightarrow> \<exists>r \<in> R. (r, v) \<in> E ^^ l"
  unfolding is_dist_def by (elim conjE)

lemma is_dist_le: "is_dist E R v l \<Longrightarrow> r \<in> R \<Longrightarrow> (r, v) \<in> E ^^ k \<Longrightarrow> l \<le> k"
  unfolding is_dist_def by (elim conjE, erule allE[of _ k], erule allE[of _ r]) simp

lemma is_distI:
  assumes "r \<in> R" "(r, v) \<in> E ^^ l"
    and "\<And>k r'. r' \<in> R \<Longrightarrow> (r', v) \<in> E ^^ k \<Longrightarrow> l \<le> k"
  shows "is_dist E R v l"
  unfolding is_dist_def
proof (intro conjI allI impI)
  show "\<exists>r \<in> R. (r, v) \<in> E ^^ l" using assms(2,1) by (rule bexI)
next
  fix k r' assume a: "r' \<in> R \<and> (r', v) \<in> E ^^ k"
  show "l \<le> k" by (rule assms(3)[OF conjunct1[OF a] conjunct2[OF a]])
qed

lemma bfs_invD:
  assumes "bfs_inv E R lv q"
  shows "\<And>e. e \<in> set q \<Longrightarrow> lv (fst e) = Some (snd e)"
    and "sorted (map snd q)"
    and "\<And>e. e \<in> set q \<Longrightarrow> snd e \<le> Suc (snd (hd q))"
    and "\<And>u j. lv u = Some j \<Longrightarrow> is_dist E R u j"
    and "\<And>u w. lv u \<noteq> None \<Longrightarrow> u \<notin> fst ` set q \<Longrightarrow> (u, w) \<in> E \<Longrightarrow> lv w \<noteq> None"
    and "\<And>r. r \<in> R \<Longrightarrow> lv r \<noteq> None"
proof -
  from assms have all: "(\<forall>e \<in> set q. lv (fst e) = Some (snd e)) \<and>
      sorted (map snd q) \<and>
      (\<forall>e \<in> set q. snd e \<le> Suc (snd (hd q))) \<and>
      (\<forall>v l. lv v = Some l \<longrightarrow> is_dist E R v l) \<and>
      (\<forall>v w. lv v \<noteq> None \<and> v \<notin> fst ` set q \<and> (v, w) \<in> E \<longrightarrow> lv w \<noteq> None) \<and>
      (\<forall>r \<in> R. lv r \<noteq> None)"
    unfolding bfs_inv_def .
  note a = all[THEN conjunct1]
    and b = all[THEN conjunct2, THEN conjunct1]
    and c = all[THEN conjunct2, THEN conjunct2, THEN conjunct1]
    and d = all[THEN conjunct2, THEN conjunct2, THEN conjunct2, THEN conjunct1]
    and e = all[THEN conjunct2, THEN conjunct2, THEN conjunct2, THEN conjunct2, THEN conjunct1]
    and f = all[THEN conjunct2, THEN conjunct2, THEN conjunct2, THEN conjunct2, THEN conjunct2]
  show "\<And>e. e \<in> set q \<Longrightarrow> lv (fst e) = Some (snd e)" using a by (rule bspec)
  show "sorted (map snd q)" by (rule b)
  show "\<And>e. e \<in> set q \<Longrightarrow> snd e \<le> Suc (snd (hd q))" using c by (rule bspec)
  show "\<And>u j. lv u = Some j \<Longrightarrow> is_dist E R u j" using d by (elim allE impE) assumption+
  show "\<And>u w. lv u \<noteq> None \<Longrightarrow> u \<notin> fst ` set q \<Longrightarrow> (u, w) \<in> E \<Longrightarrow> lv w \<noteq> None"
  proof -
    fix u w assume "lv u \<noteq> None" "u \<notin> fst ` set q" "(u, w) \<in> E"
    then have "lv u \<noteq> None \<and> u \<notin> fst ` set q \<and> (u, w) \<in> E" by (intro conjI)
    with e show "lv w \<noteq> None" by (elim allE[of _ u] allE[of _ w] impE) assumption+
  qed
  show "\<And>r. r \<in> R \<Longrightarrow> lv r \<noteq> None" using f by (rule bspec)
qed

lemma bfs_inv_discovered:
  assumes inv: "bfs_inv E R lv ((v, l) # q)"
    and r: "r \<in> R" and p: "(r, u) \<in> E ^^ k" and k: "k \<le> l"
  shows "lv u \<noteq> None"
  using p k
proof (induction k arbitrary: u)
  case 0
  then have "u = r" by simp
  with r bfs_invD(6)[OF inv] show ?case by simp
next
  case (Suc k)
  from Suc.prems(1) obtain u' where u': "(r, u') \<in> E ^^ k" "(u', u) \<in> E" by auto
  from Suc.IH[OF u'(1)] Suc.prems(2) obtain j where j: "lv u' = Some j" by auto
  from j have "is_dist E R u' j" by (rule bfs_invD(4)[OF inv])
  from is_dist_le[OF this r u'(1)] have "j \<le> k" .
  with Suc.prems(2) have jl: "j < l" by simp
  have "u' \<notin> fst ` set ((v, l) # q)"
  proof
    assume "u' \<in> fst ` set ((v, l) # q)"
    then obtain e where e: "u' = fst e" "e \<in> set ((v, l) # q)" by (rule imageE)
    from e(2) have "lv (fst e) = Some (snd e)" by (rule bfs_invD(1)[OF inv])
    with e(1) j have je: "snd e = j" by simp
    from bfs_invD(2)[OF inv] have "sorted (map snd ((v, l) # q))" .
    then have "\<forall>x \<in> set (map snd ((v, l) # q)). l \<le> x" by auto
    with e(2) have "l \<le> snd e" by (metis imageI list.set_map)
    with je jl show False by simp
  qed
  from bfs_invD(5)[OF inv _ this u'(2)] j show ?case by simp
qed

lemma bfs_inv_step:
  assumes inv: "bfs_inv E R lv ((v, l) # q)"
    and succ: "set cs = {w. (v, w) \<in> E}"
    and vc: "visitChildren cs l lv q = (lv', q')"
  shows "bfs_inv E R lv' q'"
proof -
  have lv': "\<And>w. lv' w = (if lv w = None \<and> w \<in> set cs then Some (l + 1) else lv w)"
    using visitChildren_levels[of cs l lv q] vc by simp
  from visitChildren_queue[of cs l lv q] vc
  obtain new where q': "q' = q @ new"
    and new1: "\<And>e. e \<in> set new \<Longrightarrow> snd e = l + 1 \<and> fst e \<in> set cs \<and> lv (fst e) = None"
    and new2: "\<And>c. c \<in> set cs \<Longrightarrow> lv c = None \<Longrightarrow> (c, l + 1) \<in> set new"
    by auto
  note i1 = bfs_invD(1)[OF inv] and i2 = bfs_invD(2)[OF inv] and i4 = bfs_invD(4)[OF inv]
    and i5 = bfs_invD(5)[OF inv] and i6 = bfs_invD(6)[OF inv]
  have i3: "\<And>e. e \<in> set ((v, l) # q) \<Longrightarrow> snd e \<le> Suc l"
    using bfs_invD(3)[OF inv] by simp
  have ext: "\<And>w j. lv w = Some j \<Longrightarrow> lv' w = Some j" by (simp add: lv')
  from i2 have ql: "\<And>e. e \<in> set q \<Longrightarrow> l \<le> snd e" by auto
  have c1: "\<forall>e \<in> set q'. lv' (fst e) = Some (snd e)"
  proof
    fix e assume "e \<in> set q'"
    then consider "e \<in> set q" | "e \<in> set new" by (auto simp: q')
    then show "lv' (fst e) = Some (snd e)"
    proof cases
      case 1
      then have "lv (fst e) = Some (snd e)" by (intro i1) simp
      then show ?thesis by (rule ext)
    next
      case 2
      from new1[OF this] show ?thesis by (simp add: lv')
    qed
  qed
  have c2: "sorted (map snd q')"
  proof -
    from i2 have "sorted (map snd q)" by simp
    moreover have "sorted (map snd new)"
    proof -
      have "map snd new = replicate (length new) (l + 1)"
        using new1 by (intro replicate_eqI) auto
      then show ?thesis by (simp add: sorted_replicate)
    qed
    moreover have "\<forall>x \<in> set (map snd q). \<forall>y \<in> set (map snd new). x \<le> y"
      using i3 new1 by fastforce
    ultimately show ?thesis by (simp add: q' sorted_append)
  qed
  have c3: "\<forall>e \<in> set q'. snd e \<le> Suc (snd (hd q'))"
  proof
    fix e assume e: "e \<in> set q'"
    then have ne: "q' \<noteq> []" by auto
    then have "hd q' \<in> set q'" by simp
    then consider "hd q' \<in> set q" | "hd q' \<in> set new" by (auto simp: q')
    then have "l \<le> snd (hd q')"
    proof cases
      case 1
      then show ?thesis by (rule ql)
    next
      case 2
      from new1[OF this] show ?thesis by simp
    qed
    moreover have "snd e \<le> Suc l"
    proof -
      from e consider "e \<in> set q" | "e \<in> set new" by (auto simp: q')
      then show ?thesis
      proof cases
        case 1
        then show ?thesis by (intro i3) simp
      next
        case 2
        from new1[OF this] show ?thesis by simp
      qed
    qed
    ultimately show "snd e \<le> Suc (snd (hd q'))" by simp
  qed
  have c4: "\<forall>u j. lv' u = Some j \<longrightarrow> is_dist E R u j"
  proof (intro allI impI)
    fix u j assume u: "lv' u = Some j"
    show "is_dist E R u j"
    proof (cases "lv u = None \<and> u \<in> set cs")
      case False
      with u have "lv u = Some j" by (simp add: lv')
      then show ?thesis by (rule i4)
    next
      case True
      with u have j: "j = Suc l" by (simp add: lv')
      from True succ have e: "(v, u) \<in> E" by simp
      have "lv v = Some l" using i1[of "(v, l)"] by simp
      from is_dist_reach[OF i4[OF this]] obtain r where r: "r \<in> R" "(r, v) \<in> E ^^ l"
        by (rule bexE)
      from r(2) e have "(r, u) \<in> E ^^ Suc l" by (rule relpow_Suc_I)
      moreover have "Suc l \<le> k" if "r' \<in> R" "(r', u) \<in> E ^^ k" for k r'
      proof (rule ccontr)
        assume "\<not> Suc l \<le> k"
        then have "k \<le> l" by simp
        from bfs_inv_discovered[OF inv that this] True show False by simp
      qed
      ultimately show ?thesis unfolding j using r(1) by (intro is_distI[of r])
    qed
  qed
  have c5: "\<forall>u w. lv' u \<noteq> None \<and> u \<notin> fst ` set q' \<and> (u, w) \<in> E \<longrightarrow> lv' w \<noteq> None"
  proof (intro allI impI, elim conjE)
    fix u w assume u: "lv' u \<noteq> None" "u \<notin> fst ` set q'" and e: "(u, w) \<in> E"
    have old: "lv u \<noteq> None"
    proof
      assume n: "lv u = None"
      with u(1) have "u \<in> set cs" by (simp add: lv' split: if_splits)
      from new2[OF this n] have "(u, l + 1) \<in> set q'" by (simp add: q')
      then have "u \<in> fst ` set q'" by force
      with u(2) show False by simp
    qed
    show "lv' w \<noteq> None"
    proof (cases "u = v")
      case True
      with e succ have "w \<in> set cs" by simp
      then show ?thesis by (simp add: lv')
    next
      case False
      from u(2) have "u \<notin> fst ` set q" by (auto simp: q')
      with False have "u \<notin> fst ` set ((v, l) # q)" by simp
      from i5[OF old this e] show ?thesis by (simp add: lv')
    qed
  qed
  have c6: "\<forall>r \<in> R. lv' r \<noteq> None"
    using i6 by (simp add: lv')
  from c1 c2 c3 c4 c5 c6 show ?thesis unfolding bfs_inv_def by (intro conjI)
qed

lemma bfs_inv_final:
  assumes inv: "bfs_inv E R lv []"
  shows "lv = bfs_level E R"
proof
  fix v
  have disc: "lv u \<noteq> None" if "r \<in> R" "(r, u) \<in> E ^^ k" for r u k
    using that(2)
  proof (induction k arbitrary: u)
    case 0
    then have "u = r" by simp
    with bfs_invD(6)[OF inv that(1)] show ?case by simp
  next
    case (Suc k)
    from Suc.prems obtain u' where u': "(r, u') \<in> E ^^ k" "(u', u) \<in> E" by auto
    from bfs_invD(5)[OF inv Suc.IH[OF u'(1)] _ u'(2)] show ?case by simp
  qed
  show "lv v = bfs_level E R v"
  proof (cases "lv v")
    case None
    have "\<not> (\<exists>r \<in> R. (r, v) \<in> E\<^sup>*)"
    proof
      assume "\<exists>r \<in> R. (r, v) \<in> E\<^sup>*"
      then obtain r where r: "r \<in> R" "(r, v) \<in> E\<^sup>*" by (rule bexE)
      from r(2) obtain k where "(r, v) \<in> E ^^ k" by (rule rtrancl_imp_relpow[THEN exE])
      from disc[OF r(1) this] None show False by simp
    qed
    with None show ?thesis by (simp add: bfs_level_def)
  next
    case (Some l)
    from bfs_invD(4)[OF inv Some] have d: "is_dist E R v l" .
    from is_dist_reach[OF d] obtain r where r: "r \<in> R" "(r, v) \<in> E ^^ l" by (rule bexE)
    from r(2) have "(r, v) \<in> E\<^sup>*" by (rule relpow_imp_rtrancl)
    with r(1) have reach: "\<exists>r \<in> R. (r, v) \<in> E\<^sup>*" by (rule bexI[rotated])
    have "(LEAST k. \<exists>r \<in> R. (r, v) \<in> E ^^ k) = l"
    proof (rule Least_equality)
      show "\<exists>r \<in> R. (r, v) \<in> E ^^ l" by (rule is_dist_reach[OF d])
    next
      fix k assume "\<exists>r \<in> R. (r, v) \<in> E ^^ k"
      then obtain r' where "r' \<in> R" "(r', v) \<in> E ^^ k" by (rule bexE)
      then show "l \<le> k" by (rule is_dist_le[OF d])
    qed
    with reach Some show ?thesis by (simp add: bfs_level_def)
  qed
qed

lemma adj_get_rel: "set (adj_get adjacency v) = {w. (v, w) \<in> adj_rel adjacency}"
  by (simp add: adj_rel_def)

lemma bfs_correct:
  "bfs_inv (adj_rel adjacency) R lv q \<Longrightarrow> bfs adjacency lv q = bfs_level (adj_rel adjacency) R"
proof (induction adjacency lv q rule: bfs.induct)
  case (1 adjacency levels)
  from bfs_inv_final[OF 1] show ?case by (simp add: bfs.simps)
next
  case (2 adjacency levels nodeId level queue)
  obtain lv' q' where vc: "visitChildren (adj_get adjacency nodeId) level levels queue = (lv', q')"
    by (cases "visitChildren (adj_get adjacency nodeId) level levels queue")
  from bfs_inv_step[OF 2(2) adj_get_rel vc] have "bfs_inv (adj_rel adjacency) R lv' q'" .
  from 2(1)[OF vc[symmetric] this] show ?case by (simp add: bfs.simps vc)
qed



lemma bfs_inv_seed:
  "bfs_inv E (node_id ` set rs)
     (\<lambda>w. if w \<in> node_id ` set rs then Some 0 else None) (map (\<lambda>r. (node_id r, 0)) rs)"
  unfolding bfs_inv_def
proof (intro conjI ballI allI impI)
  fix e assume "e \<in> set (map (\<lambda>r. (node_id r, 0::nat)) rs)"
  then show "(if fst e \<in> node_id ` set rs then Some 0 else None) = Some (snd e)" by auto
next
  have "map snd (map (\<lambda>r. (node_id r, 0::nat)) rs) = replicate (length rs) 0"
    by (induction rs) simp_all
  then show "sorted (map snd (map (\<lambda>r. (node_id r, 0::nat)) rs))"
    by (simp add: sorted_replicate)
next
  fix e assume "e \<in> set (map (\<lambda>r. (node_id r, 0::nat)) rs)"
  then have "snd e = 0" by auto
  then show "snd e \<le> Suc (snd (hd (map (\<lambda>r. (node_id r, 0)) rs)))" by simp
next
  fix v l assume "(if v \<in> node_id ` set rs then Some 0 else None) = Some (l::nat)"
  then have v: "v \<in> node_id ` set rs" and l: "l = 0" by (simp_all split: if_splits)
  show "is_dist E (node_id ` set rs) v l"
    unfolding l by (rule is_distI[OF v]) simp_all
next
  fix v w
  assume "(if v \<in> node_id ` set rs then Some (0::nat) else None) \<noteq> None \<and>
          v \<notin> fst ` set (map (\<lambda>r. (node_id r, 0::nat)) rs) \<and> (v, w) \<in> E"
  then have "v \<in> node_id ` set rs" "v \<notin> fst ` set (map (\<lambda>r. (node_id r, 0::nat)) rs)"
    by (simp_all split: if_splits)
  then have False by (simp add: image_image)
  then show "(if w \<in> node_id ` set rs then Some (0::nat) else None) \<noteq> None" ..
next
  fix r assume "r \<in> node_id ` set rs"
  then show "(if r \<in> node_id ` set rs then Some (0::nat) else None) \<noteq> None" by simp
qed

lemma assignLevels_bfs_level:
  "assignLevels ns es = bfs_level (edge_rel es) (node_id ` set (rootNodes ns es))"
  using bfs_correct[OF bfs_inv_seed, of "buildAdjacency es" "rootNodes ns es"]
  by (simp add: assignLevels_def seedRoots_closed adj_rel_buildAdjacency)


lemma set_first_occurrences [simp]: "set (first_occurrences xs) = set xs"
  by (simp add: first_occurrences_def)


















lemma levelOf_position [simp]: "levelOf lv (node\<lparr>position := p\<rparr>) = levelOf lv node"
  by (simp add: levelOf_def)







section \<open>Layout results\<close>

lemma sans_position_update [simp]: "sans_position (node\<lparr>position := p\<rparr>) = sans_position node"
  by (simp add: sans_position_def)

lemma sans_position_enumerate:
  "map sans_position (map (\<lambda>(i, node). node\<lparr>position := f i\<rparr>) (enumerate k xs)) = map sans_position xs"
  by (induction xs arbitrary: k) simp_all

lemma sans_position_placeLevel:
  "map sans_position (placeLevel opts (l, xs)) = map sans_position xs"
  unfolding placeLevel_def Let_def prod.case by (rule sans_position_enumerate)

lemma mset_map_push:
  "mset (concat (map snd (map_push k v m))) = mset (concat (map snd m)) + {#v#}"
  by (induction m) auto

lemma mset_group_fold:
  "mset (concat (map snd (fold (\<lambda>node m. map_push (f node) node m) xs acc)))
     = mset (concat (map snd acc)) + mset xs"
  by (induction xs arbitrary: acc) (simp_all add: mset_map_push)

lemma mset_groupByLevel: "mset (concat (map snd (groupByLevel levels xs))) = mset xs"
  by (simp add: groupByLevel_def mset_group_fold)

lemma sans_position_groups:
  "map sans_position (concat (map (placeLevel opts) groups)) = map sans_position (concat (map snd groups))"
  by (induction groups) (auto simp: sans_position_placeLevel)

text \<open>
  C8. Both layouts build their result from the input nodes by replacing \<open>position\<close> only:
  the force-directed result is the input list, node by node, up to \<open>position\<close>; the
  hierarchical result holds the same nodes up to \<open>position\<close> (grouped by level, so
  possibly in another order). Both return the edge list they were given. The model is
  pure because the source builds new objects (\<open>{...node, position}\<close>) and never assigns
  to a field of an input node.
\<close>

theorem layout_frame:
  "map sans_position (nodes (applyForceDirectedLayout d3 ns es options)) = map sans_position ns \<and>
   edges (applyForceDirectedLayout d3 ns es options) = es \<and>
   mset (map sans_position (nodes (applyHierarchicalLayout ns es options))) = mset (map sans_position ns) \<and>
   length (nodes (applyHierarchicalLayout ns es options)) = length ns \<and>
   edges (applyHierarchicalLayout ns es options) = es"
proof -
  have f: "map sans_position (nodes (applyForceDirectedLayout d3 ns es options)) = map sans_position ns"
  proof -
    have "map sans_position (map (\<lambda>(i, layoutNode). (originalNode layoutNode)\<lparr>position := g i\<rparr>)
            (enumerate k (map (\<lambda>node. \<lparr>ln_id = node_id node, ln_x = px (position node),
                                     ln_y = py (position node), originalNode = node\<rparr>) xs)))
          = map sans_position xs" for g k xs
      by (induction xs arbitrary: k) simp_all
    then show ?thesis by (simp add: applyForceDirectedLayout_def Let_def)
  qed
  have h: "map sans_position (nodes (applyHierarchicalLayout ns es options))
           = map sans_position (concat (map snd (groupByLevel (assignLevels ns es) ns)))"
    by (simp add: applyHierarchicalLayout_def Let_def sans_position_groups)
  have "mset (map sans_position (nodes (applyHierarchicalLayout ns es options))) = mset (map sans_position ns)"
    unfolding h using mset_groupByLevel[of "assignLevels ns es" ns] by (metis mset_map)
  moreover from this have "length (nodes (applyHierarchicalLayout ns es options)) = length ns"
    by (metis length_map size_mset)
  ultimately show ?thesis using f
    by (simp add: applyForceDirectedLayout_def applyHierarchicalLayout_def Let_def)
qed

theorem layout_frame_witness:
  "map node_id (nodes (applyHierarchicalLayout exTreeNodes exTreeEdges noOptions)) =
     [''B'', ''C'', ''A'', ''D''] \<and>
   mset (map sans_position (nodes (applyHierarchicalLayout exTreeNodes exTreeEdges noOptions))) =
     mset (map sans_position exTreeNodes) \<and>
   edges (applyHierarchicalLayout exTreeNodes exTreeEdges noOptions) = exTreeEdges \<and>
   nodes (applyForceDirectedLayout exD3 exChainNodes exCycleEdges twoTicks) =
     [mkNode ''A'' (1801 / 4) (601 / 2), mkNode ''B'' (1803 / 4) 301,
      mkNode ''C'' (1805 / 4) (603 / 2)] \<and>
   map sans_position (nodes (applyForceDirectedLayout exD3 exChainNodes exCycleEdges twoTicks)) =
     map sans_position exChainNodes \<and>
   edges (applyForceDirectedLayout exD3 exChainNodes exCycleEdges twoTicks) = exCycleEdges"
proof -
  have a: "map node_id (nodes (applyHierarchicalLayout exTreeNodes exTreeEdges noOptions)) =
     [''B'', ''C'', ''A'', ''D'']"
    by (simp add: layout_eval graph_defs)
  have b: "nodes (applyForceDirectedLayout exD3 exChainNodes exCycleEdges twoTicks) =
     [mkNode ''A'' (1801 / 4) (601 / 2), mkNode ''B'' (1803 / 4) 301,
      mkNode ''C'' (1805 / 4) (603 / 2)]"
    by (simp add: applyForceDirectedLayout_def exD3_def twoTicks_def noOptions_def
          resolveOptions_def override_def DEFAULT_OPTIONS_def graph_defs Let_def tickCount_def
          numeral_2_eq_2 num_or_def)
  from layout_frame[of exD3 exChainNodes exCycleEdges twoTicks]
       layout_frame[of exD3 exTreeNodes exTreeEdges noOptions] a b
  show ?thesis by (intro conjI) (elim conjE, assumption)+
qed

text \<open>
  C5. \<open>applyAutoLayout\<close>: no node, the input is returned; one node, it is placed at
  (width/2, height/2) of the options with defaults (1200 and 800) filled in; two or more
  nodes, the hierarchical layout when \<open>isHierarchicalGraph\<close> holds and the force-directed
  layout otherwise.
\<close>

theorem auto_dispatch:
  "(ns = [] \<longrightarrow> applyAutoLayout d3 ns es options = \<lparr>nodes = [], edges = es\<rparr>) \<and>
   (\<forall>node. ns = [node] \<longrightarrow>
      applyAutoLayout d3 ns es options =
        \<lparr>nodes = [node\<lparr>position := \<lparr>px = r_width (resolveOptions options) / 2,
                                      py = r_height (resolveOptions options) / 2\<rparr>\<rparr>],
         edges = es\<rparr>) \<and>
   (2 \<le> length ns \<and> isHierarchicalGraph ns es \<longrightarrow>
      applyAutoLayout d3 ns es options = applyHierarchicalLayout ns es options) \<and>
   (2 \<le> length ns \<and> \<not> isHierarchicalGraph ns es \<longrightarrow>
      applyAutoLayout d3 ns es options = applyForceDirectedLayout d3 ns es options) \<and>
   r_width (resolveOptions options) = (case opt_width options of None \<Rightarrow> 1200 | Some w \<Rightarrow> w) \<and>
   r_height (resolveOptions options) = (case opt_height options of None \<Rightarrow> 800 | Some h \<Rightarrow> h)"
  by (auto simp: applyAutoLayout_def resolveOptions_def override_def DEFAULT_OPTIONS_def Let_def
           split: list.splits option.splits)

theorem auto_dispatch_witness:
  "applyAutoLayout exD3 [] exChainEdges noOptions = \<lparr>nodes = [], edges = exChainEdges\<rparr> \<and>
   applyAutoLayout exD3 [mkNode ''A'' 1 2] [] noOptions =
     \<lparr>nodes = [mkNode ''A'' 600 400], edges = []\<rparr> \<and>
   applyAutoLayout exD3 exTreeNodes exTreeEdges noOptions =
     applyHierarchicalLayout exTreeNodes exTreeEdges noOptions \<and>
   applyAutoLayout exD3 exChainNodes exCycleEdges noOptions =
     applyForceDirectedLayout exD3 exChainNodes exCycleEdges noOptions"
proof -
  have "applyAutoLayout exD3 [] exChainEdges noOptions = \<lparr>nodes = [], edges = exChainEdges\<rparr>"
    using auto_dispatch[of "[]" exD3 exChainEdges noOptions] by simp
  moreover have "applyAutoLayout exD3 [mkNode ''A'' 1 2] [] noOptions =
     \<lparr>nodes = [mkNode ''A'' 600 400], edges = []\<rparr>"
    using auto_dispatch[of "[mkNode ''A'' 1 2]" exD3 "[]" noOptions]
    by (simp add: noOptions_def mkNode_def)
  moreover have "applyAutoLayout exD3 exTreeNodes exTreeEdges noOptions =
     applyHierarchicalLayout exTreeNodes exTreeEdges noOptions"
    using auto_dispatch[of exTreeNodes exD3 exTreeEdges noOptions] isHierarchicalGraph_tree
    by (simp add: exTreeNodes_def)
  moreover have "applyAutoLayout exD3 exChainNodes exCycleEdges noOptions =
     applyForceDirectedLayout exD3 exChainNodes exCycleEdges noOptions"
    using auto_dispatch[of exChainNodes exD3 exCycleEdges noOptions] isHierarchicalGraph_cycle
    by (simp add: exChainNodes_def)
  ultimately show ?thesis by blast
qed

end
